theory Spec2Isabelle
  imports Main "HOL-Library.List_Lexorder" "HOL-Library.Char_ord"
begin

section \<open>Data frames\<close>

text \<open>
  The program works on pandas data frames. A frame is modelled by what the program reads
  of it: the list of column labels (\<open>df.columns\<close>) and the rows in index order, each row
  the index label (the gene name) with the cells of the row, one per column, by position.
  A cell is \<open>None\<close> when the value is missing (NaN). Duplicate index labels and duplicate
  column labels are possible, as in pandas.

  A frame read by \<open>read_counts\<close> has one column, named after the sample, and at least
  one row (\<open>read_csv\<close> refuses a file without data). The counts are integers in the
  range of \<open>int64\<close>.
\<close>

record ('k, 'v) dataframe =
  columns :: "string list"
  rows :: "('k \<times> 'v option list) list"

definition index :: "('k, 'v) dataframe \<Rightarrow> 'k list" where
  "index t = map fst (rows t)"

text \<open>\<open>df.shape\<close>: the number of rows and the number of columns.\<close>

definition shape :: "('k, 'v) dataframe \<Rightarrow> nat \<times> nat" where
  "shape t = (length (rows t), length (columns t))"

subsection \<open>Integers as floating-point numbers\<close>

text \<open>
  A column of integers that receives a missing value becomes a column of \<open>float64\<close>:
  every count is replaced by the nearest number with 53 significant bits, a tie going
  to the even one. \<open>bit_length\<close> is the number of binary digits of a number,
  \<open>round_half_even a e\<close> is \<open>a / 2 ^ e\<close> rounded so, and \<open>float64_of_int\<close> is the
  conversion; it changes no integer up to \<open>2 ^ 53\<close> in magnitude, and it turns
  \<open>2 ^ 53 + 1\<close> into \<open>2 ^ 53\<close>. (Integers of the \<open>int64\<close> range are far from the
  largest \<open>float64\<close>, so no overflow is modelled.)
\<close>

fun bit_length :: "nat \<Rightarrow> nat" where
  "bit_length n = (if n = 0 then 0 else Suc (bit_length (n div 2)))"

declare bit_length.simps [simp del]

definition round_half_even :: "nat \<Rightarrow> nat \<Rightarrow> nat" where
  "round_half_even a e =
     (let q = a div 2 ^ e; r = a mod 2 ^ e
      in if 2 * r > 2 ^ e \<or> (2 * r = 2 ^ e \<and> odd q) then q + 1 else q)"

definition float64_of_nat :: "nat \<Rightarrow> nat" where
  "float64_of_nat a =
     (let e = bit_length a - 53 in round_half_even a e * 2 ^ e)"

definition float64_of_int :: "int \<Rightarrow> int" where
  "float64_of_int n = sgn n * int (float64_of_nat (nat \<bar>n\<bar>))"

text \<open>The cells of a row after the conversion; a missing cell stays missing.\<close>

definition to_float64 :: "int option list \<Rightarrow> int option list" where
  "to_float64 cs = map (map_option float64_of_int) cs"

subsection \<open>The outer join on the index\<close>

text \<open>
  \<open>left.merge(right, how="outer", left_index=True, right_index=True)\<close>, as pandas 1.x
  performs it.
  \<^item> The keys of the result are the union of the keys of both frames. When the two
    indexes are the same list of unique keys, the result keeps that list as it is;
    otherwise the keys are sorted.
  \<^item> A key of one frame only gets missing values for the columns of the other frame,
    and a frame that lacks a key of the result has its integer columns converted to
    \<open>float64\<close>.
  \<^item> A key that occurs several times contributes every combination of its left rows
    with its right rows.
  \<^item> A column label that occurs in both frames gets the suffix \<open>_x\<close> in the left
    columns and \<open>_y\<close> in the right ones (the default \<open>suffixes\<close>).
  \<^item> The result is a new frame; neither operand is changed.

  Where a suffix produces a label that the frame already has, the model keeps both
  columns, as pandas did when the program was written; later versions of pandas raise a
  \<open>MergeError\<close> there. No label is renamed when the sample names are distinct. For
  an operand without rows pandas keeps the row order of the other operand; frames
  without rows do not come from \<open>read_counts\<close>, and the model sorts the keys then.
\<close>

definition join_index :: "('k::linorder, 'v) dataframe \<Rightarrow> ('k, 'v) dataframe \<Rightarrow> 'k list" where
  "join_index l r =
     (if distinct (index l) \<and> index l = index r then index l
      else sort (remdups (index l @ index r)))"

text \<open>
  The rows that a frame contributes under a key \<open>k\<close> to a join with the keys \<open>keys\<close>:
  its rows with that key, converted when the frame lacks one of \<open>keys\<close>, or one row of
  missing values when it has no such row.
\<close>

definition rows_at :: "('k, int) dataframe \<Rightarrow> 'k list \<Rightarrow> 'k \<Rightarrow> int option list list" where
  "rows_at t keys k =
     (case map snd (filter (\<lambda>r. fst r = k) (rows t)) of
        [] \<Rightarrow> [replicate (length (columns t)) None]
      | r # rs \<Rightarrow>
          if set keys \<subseteq> set (index t) then r # rs else map to_float64 (r # rs))"

definition add_suffix :: "string list \<Rightarrow> string list \<Rightarrow> string \<Rightarrow> string list" where
  "add_suffix cols other sfx = map (\<lambda>c. if c \<in> set other then c @ sfx else c) cols"

definition merge_outer ::
  "('k::linorder, int) dataframe \<Rightarrow> ('k, int) dataframe \<Rightarrow> ('k, int) dataframe" where
  "merge_outer l r =
     \<lparr> columns = add_suffix (columns l) (columns r) ''_x'' @
                 add_suffix (columns r) (columns l) ''_y'',
       rows = concat (map (\<lambda>k. concat (map (\<lambda>a. map (\<lambda>b. (k, a @ b))
                                                   (rows_at r (join_index l r) k))
                                            (rows_at l (join_index l r) k)))
                (join_index l r)) \<rparr>"

text \<open>
  \<open>pd.testing.assert_frame_equal(left, right)\<close> with its default arguments compares
  the index labels in order, the column labels in order and the cells position by
  position, a missing value being equal to a missing value. It compares the types of the
  columns too. A frame of the model has no column types: a cell holds the number that
  the column holds, after the conversion where the merge converts. In the two frames
  that the program compares, a column is of type \<open>float64\<close> exactly when the input
  table it comes from lacks a key of the result, in the one frame as in the other.
\<close>

definition assert_frame_equal :: "('k, 'v) dataframe \<Rightarrow> ('k, 'v) dataframe \<Rightarrow> bool" where
  "assert_frame_equal left right \<longleftrightarrow>
     shape left = shape right \<and> index left = index right \<and>
     columns left = columns right \<and> map snd (rows left) = map snd (rows right)"

section \<open>Errors\<close>

datatype message =
    Output_matrix_shape "nat \<times> nat" "nat \<times> nat"
  | Math_was_incorrect

datatype error =
    ValueError string
  | RuntimeError message
  | AssertionError
  | AttributeError

text \<open>
  \<open>raise_error\<close> raises a \<open>RuntimeError\<close> whose text is the message followed by a
  fixed request to report the error. \<open>Output_matrix_shape actual expected\<close> stands for
  the text built from the two shapes.
\<close>

definition raise_error :: "message \<Rightarrow> error" where
  "raise_error m = RuntimeError m"

section \<open>The program state\<close>

text \<open>
  Frames and lists are objects: the list that a reducer receives holds references to
  frames, \<open>dfs.pop(0)\<close> changes the list object of the caller, and
  \<open>result.columns = ...\<close> changes a frame object. The state holds
  \<^item> \<open>frames\<close>: the frame objects, a reference being a position in this list;
    \<open>merge\<close> allocates its result at the end;
  \<^item> \<open>dfs_list\<close>: the list object that the caller passes as \<open>dfs\<close>;
  \<^item> \<open>work_list\<close>: the list object built by a round of the recursive reducer, to
    which \<open>dfs = merged_dfs\<close> rebinds the variable;
  \<^item> \<open>pbar_total\<close>, \<open>pbar_n\<close>: the progress bar of the recursive reducer, its total
    and the number of \<open>pbar.update()\<close> calls;
  \<^item> \<open>merge_calls\<close>: the number of calls of \<open>merge\<close>.
\<close>

type_synonym ref = nat

record ('k, 'v) state =
  frames :: "('k, 'v) dataframe list"
  dfs_list :: "ref list"
  work_list :: "ref list"
  pbar_total :: nat
  pbar_n :: nat
  merge_calls :: nat

text \<open>The list object that the variable \<open>dfs\<close> is bound to.\<close>

datatype listvar = Arg | Work

fun contents :: "listvar \<Rightarrow> ('k, 'v) state \<Rightarrow> ref list" where
  "contents Arg s = dfs_list s"
| "contents Work s = work_list s"

fun set_contents :: "listvar \<Rightarrow> ref list \<Rightarrow> ('k, 'v) state \<Rightarrow> ('k, 'v) state" where
  "set_contents Arg xs s = s\<lparr>dfs_list := xs\<rparr>"
| "set_contents Work xs s = s\<lparr>work_list := xs\<rparr>"

definition merge_st ::
  "ref \<Rightarrow> ref \<Rightarrow> ('k::linorder, int) state \<Rightarrow> ref \<times> ('k, int) state" where
  "merge_st one two s =
     (length (frames s),
      s\<lparr>frames := frames s @ [merge_outer (frames s ! one) (frames s ! two)],
        merge_calls := merge_calls s + 1\<rparr>)"

definition pbar_update :: "('k, 'v) state \<Rightarrow> ('k, 'v) state" where
  "pbar_update s = s\<lparr>pbar_n := pbar_n s + 1\<rparr>"

section \<open>The sequential reducer\<close>

text \<open>The loop \<open>for dataframe in dfs\<close> of \<open>join_dataframes_sequentially\<close>.\<close>

fun sequential_loop ::
  "ref list \<Rightarrow> ref option \<Rightarrow> ('k::linorder, int) state \<Rightarrow> ref option \<times> ('k, int) state" where
  "sequential_loop [] result s = (result, s)"
| "sequential_loop (dataframe # rest) None s = sequential_loop rest (Some dataframe) s"
| "sequential_loop (dataframe # rest) (Some result) s =
     (case merge_st result dataframe s of
        (merged, s') \<Rightarrow> sequential_loop rest (Some merged) s')"

definition join_dataframes_sequentially ::
  "('k::linorder, int) state \<Rightarrow> (error + ref) \<times> ('k, int) state" where
  "join_dataframes_sequentially s =
     (let num_dfs = length (dfs_list s) in
      if num_dfs \<le> 0 then
        (Inl (ValueError ''Must contain at least one count file to merge.''), s)
      else
        let expected_result_shape = (fst (shape (frames s ! (dfs_list s ! 0))), num_dfs) in
        case sequential_loop (dfs_list s) None s of
          (None, s') \<Rightarrow> (Inl AttributeError, s')
        | (Some result, s') \<Rightarrow>
            if shape (frames s' ! result) \<noteq> expected_result_shape then
              (Inl (raise_error
                 (Output_matrix_shape (shape (frames s' ! result)) expected_result_shape)), s')
            else (Inr result, s'))"

section \<open>The recursive reducer\<close>

text \<open>
  The loop that computes \<open>num_iterations_needed\<close>. \<open>math.ceil(num_dfs / 2)\<close> is
  \<open>(num_dfs + 1) div 2\<close>: the float division is exact for every length a list can have.
\<close>

function num_iterations_loop :: "nat \<Rightarrow> nat \<Rightarrow> nat" where
  "num_iterations_loop num_dfs num_iterations_needed =
     (if num_dfs > 1 then
        let amt = (num_dfs + 1) div 2 in
        num_iterations_loop amt (num_iterations_needed + amt)
      else num_iterations_needed)"
  by pat_completeness auto

termination
  by (relation "measure (\<lambda>(n, k). n)") auto

declare num_iterations_loop.simps [simp del]

text \<open>
  The loop \<open>while len(dfs) > 0\<close>: it pops one or two references from the front of the
  list object that \<open>dfs\<close> is bound to and appends to \<open>merged_dfs\<close>.
\<close>

function inner_loop ::
  "listvar \<Rightarrow> ref list \<Rightarrow> ('k::linorder, int) state \<Rightarrow> ref list \<times> ('k, int) state" where
  "inner_loop dfs merged_dfs s =
     (case contents dfs s of
        [] \<Rightarrow> (merged_dfs, s)
      | one # rest \<Rightarrow>
          (case rest of
             [] \<Rightarrow> inner_loop dfs (merged_dfs @ [one]) (pbar_update (set_contents dfs [] s))
           | two # rest' \<Rightarrow>
               (case merge_st one two (set_contents dfs rest' s) of
                  (merged, s') \<Rightarrow> inner_loop dfs (merged_dfs @ [merged]) (pbar_update s'))))"
  by pat_completeness auto

termination
  by (relation "measure (\<lambda>(dfs, merged_dfs, s). length (contents dfs s))")
     (auto simp: merge_st_def pbar_update_def elim!: contents.elims)

declare inner_loop.simps [simp del]

text \<open>
  One pass over a list of references, as the loop above performs it: the same steps,
  written by recursion on the list that is consumed.
\<close>

fun pair_round ::
  "ref list \<Rightarrow> ref list \<Rightarrow> ('k::linorder, int) state \<Rightarrow> ref list \<times> ('k, int) state" where
  "pair_round [] merged_dfs s = (merged_dfs, s)"
| "pair_round [one] merged_dfs s = (merged_dfs @ [one], pbar_update s)"
| "pair_round (one # two # rest) merged_dfs s =
     (case merge_st one two s of
        (merged, s') \<Rightarrow> pair_round rest (merged_dfs @ [merged]) (pbar_update s'))"

lemma set_contents_same: "contents dfs s = xs \<Longrightarrow> set_contents dfs xs s = s"
  by (cases dfs) auto

lemma inner_loop_pair_round:
  "inner_loop dfs merged_dfs s = pair_round (contents dfs s) merged_dfs (set_contents dfs [] s)"
proof (induction dfs merged_dfs s rule: inner_loop.induct)
  case (1 dfs merged_dfs s)
  show ?case
  proof (cases "contents dfs s")
    case Nil
    then show ?thesis
      using inner_loop.simps [of dfs merged_dfs s] by (simp add: set_contents_same)
  next
    case (Cons one rest)
    show ?thesis
    proof (cases rest)
      case Nil
      have "inner_loop dfs merged_dfs s =
              inner_loop dfs (merged_dfs @ [one]) (pbar_update (set_contents dfs [] s))"
        using Cons Nil by (simp add: inner_loop.simps [of dfs merged_dfs s])
      also have "\<dots> = (merged_dfs @ [one], pbar_update (set_contents dfs [] s))"
        using inner_loop.simps [of dfs "merged_dfs @ [one]" "pbar_update (set_contents dfs [] s)"]
        by (cases dfs) (simp_all add: pbar_update_def)
      finally show ?thesis
        using Cons Nil by simp
    next
      case (Cons two rest')
      obtain merged s' where m: "merge_st one two (set_contents dfs rest' s) = (merged, s')"
        by (cases "merge_st one two (set_contents dfs rest' s)")
      have step: "inner_loop dfs merged_dfs s =
                    inner_loop dfs (merged_dfs @ [merged]) (pbar_update s')"
        using \<open>contents dfs s = one # rest\<close> Cons m
        by (simp add: inner_loop.simps [of dfs merged_dfs s])
      have ih: "inner_loop dfs (merged_dfs @ [merged]) (pbar_update s') =
                  pair_round (contents dfs (pbar_update s')) (merged_dfs @ [merged])
                    (set_contents dfs [] (pbar_update s'))"
        using "1.IH"(2) \<open>contents dfs s = one # rest\<close> Cons m [symmetric] by blast
      have c: "contents dfs (pbar_update s') = rest'"
        using m by (cases dfs) (auto simp: merge_st_def pbar_update_def)
      have e: "merge_st one two (set_contents dfs [] s) = (merged, set_contents dfs [] s')"
        using m by (cases dfs) (auto simp: merge_st_def)
      have f: "set_contents dfs [] (pbar_update s') = pbar_update (set_contents dfs [] s')"
        by (cases dfs) (simp_all add: pbar_update_def)
      show ?thesis
        using step ih c e f \<open>contents dfs s = one # rest\<close> Cons by simp
    qed
  qed
qed

lemma length_pair_round:
  "length (fst (pair_round xs merged_dfs s)) = length merged_dfs + (length xs + 1) div 2"
  by (induction xs merged_dfs s rule: pair_round.induct) (auto split: prod.splits)

text \<open>
  The loop \<open>while len(dfs) > 1\<close>: a round builds the new list \<open>merged_dfs\<close>, to which
  \<open>dfs\<close> is then bound.
\<close>

function outer_loop ::
  "listvar \<Rightarrow> ('k::linorder, int) state \<Rightarrow> listvar \<times> ('k, int) state" where
  "outer_loop dfs s =
     (if length (contents dfs s) > 1 then
        (case inner_loop dfs [] s of
           (merged_dfs, s') \<Rightarrow> outer_loop Work (s'\<lparr>work_list := merged_dfs\<rparr>))
      else (dfs, s))"
  by pat_completeness auto

termination
proof (relation "measure (\<lambda>(dfs, s). length (contents dfs s))", goal_cases)
  case 1
  show ?case by simp
next
  case (2 dfs s merged_dfs s')
  have "length (fst (inner_loop dfs [] s)) = (length (contents dfs s) + 1) div 2"
    by (simp add: inner_loop_pair_round length_pair_round)
  moreover have "merged_dfs = fst (inner_loop dfs [] s)"
    using 2 by (metis fst_conv)
  ultimately show ?case using 2 by auto
qed

declare outer_loop.simps [simp del]

text \<open>\<open>result.columns = sorted(result.columns)\<close>: the frame object gets new labels.\<close>

definition set_columns :: "ref \<Rightarrow> string list \<Rightarrow> ('k, 'v) state \<Rightarrow> ('k, 'v) state" where
  "set_columns r cs s = s\<lparr>frames := (frames s)[r := (frames s ! r)\<lparr>columns := cs\<rparr>]\<rparr>"

definition join_dataframes_recursively ::
  "('k::linorder, int) state \<Rightarrow> (error + ref) \<times> ('k, int) state" where
  "join_dataframes_recursively s =
     (let num_dfs = length (dfs_list s) in
      if num_dfs \<le> 0 then
        (Inl (ValueError ''Must contain at least one count file to merge.''), s)
      else
        let expected_result_shape = (fst (shape (frames s ! (dfs_list s ! 0))), num_dfs);
            num_iterations_needed = num_iterations_loop num_dfs 0;
            s1 = s\<lparr>pbar_total := num_iterations_needed, pbar_n := 0\<rparr>
        in
        case outer_loop Arg s1 of
          (dfs, s2) \<Rightarrow>
            if length (contents dfs s2) \<noteq> 1 then (Inl (raise_error Math_was_incorrect), s2)
            else
              let result = contents dfs s2 ! 0;
                  s3 = set_columns result (sort (columns (frames s2 ! result))) s2
              in
              if shape (frames s3 ! result) \<noteq> expected_result_shape then
                (Inl (raise_error
                   (Output_matrix_shape (shape (frames s3 ! result)) expected_result_shape)), s3)
              else (Inr result, s3))"

section \<open>The concordance test\<close>

definition concordance_test ::
  "('k::linorder, int) state \<Rightarrow> (error + unit) \<times> ('k, int) state" where
  "concordance_test s =
     (case join_dataframes_sequentially s of
        (Inl e, s1) \<Rightarrow> (Inl e, s1)
      | (Inr sequential_df, s1) \<Rightarrow>
          (case join_dataframes_recursively s1 of
             (Inl e, s2) \<Rightarrow> (Inl e, s2)
           | (Inr recursive_df, s2) \<Rightarrow>
               if assert_frame_equal (frames s2 ! sequential_df) (frames s2 ! recursive_df)
               then (Inr (), s2)
               else (Inl AssertionError, s2)))"

text \<open>The state in which a caller passes a list of freshly read frames.\<close>

definition initial :: "('k, 'v) dataframe list \<Rightarrow> ('k, 'v) state" where
  "initial ts =
     \<lparr> frames = ts, dfs_list = [0 ..< length ts], work_list = [],
       pbar_total = 0, pbar_n = 0, merge_calls = 0 \<rparr>"

section \<open>Notions for the proofs\<close>

text \<open>
  The definitions of this section are not parts of the program: they state what the
  loops compute and what the tables are, for the lemmas and the properties below.

  References stand for frames of the state: a list of references is valid when each of
  them is the position of a frame, and \<open>deref\<close> gives the frames they stand for.
\<close>

definition valid_refs :: "ref list \<Rightarrow> ('k, 'v) state \<Rightarrow> bool" where
  "valid_refs rs s \<longleftrightarrow> (\<forall>r \<in> set rs. r < length (frames s))"

definition deref :: "('k, 'v) state \<Rightarrow> ref list \<Rightarrow> ('k, 'v) dataframe list" where
  "deref s rs = map (\<lambda>r. frames s ! r) rs"

text \<open>
  One round of the recursive reducer on the frames themselves: adjacent frames are merged
  and a last frame without a mate is kept. \<open>reduce_frames\<close> repeats the round while
  more than one frame is left.
\<close>

fun pair_frames :: "('k::linorder, int) dataframe list \<Rightarrow> ('k, int) dataframe list" where
  "pair_frames [] = []"
| "pair_frames [one] = [one]"
| "pair_frames (one # two # rest) = merge_outer one two # pair_frames rest"

lemma length_pair_frames: "length (pair_frames ts) = (length ts + 1) div 2"
  by (induction ts rule: pair_frames.induct) auto

function reduce_frames :: "('k::linorder, int) dataframe list \<Rightarrow> ('k, int) dataframe list" where
  "reduce_frames ts = (if length ts > 1 then reduce_frames (pair_frames ts) else ts)"
  by pat_completeness auto

termination
  by (relation "measure length") (auto simp: length_pair_frames)

declare reduce_frames.simps [simp del]

text \<open>
  The shape that both reducers expect, \<open>(dfs[0].shape[0], num_dfs)\<close>, and the check
  that ends both of them: the result, or the error that carries both shapes.
\<close>

definition expected_shape :: "('k, 'v) state \<Rightarrow> nat \<times> nat" where
  "expected_shape s = (fst (shape (frames s ! (dfs_list s ! 0))), length (dfs_list s))"

definition check_shape :: "('k, 'v) dataframe \<Rightarrow> nat \<times> nat \<Rightarrow> ref \<Rightarrow> error + ref" where
  "check_shape t expected r =
     (if shape t \<noteq> expected then Inl (raise_error (Output_matrix_shape (shape t) expected))
      else Inr r)"

text \<open>
  What \<open>result.columns = sorted(result.columns)\<close> does to a frame: the labels are
  replaced by the sorted labels, the rows are left as they are.
\<close>

definition sort_columns :: "('k, 'v) dataframe \<Rightarrow> ('k, 'v) dataframe" where
  "sort_columns t = t\<lparr>columns := sort (columns t)\<rparr>"

text \<open>
  A keyed table: the keys are unique and every row has one cell per column. The frames
  that \<open>read_counts\<close> loads from well-formed count files are keyed tables with one
  column.
\<close>

definition keyed :: "('k, 'v) dataframe \<Rightarrow> bool" where
  "keyed t \<longleftrightarrow>
     distinct (index t) \<and> (\<forall>row \<in> set (rows t). length (snd row) = length (columns t))"

text \<open>
  The cells of the row of a key, all missing when the table does not have the key.
\<close>

definition cells :: "('k, 'v) dataframe \<Rightarrow> 'k \<Rightarrow> 'v option list" where
  "cells t k =
     (case map_of (rows t) k of
        None \<Rightarrow> replicate (length (columns t)) None
      | Some cs \<Rightarrow> cs)"

text \<open>
  The content of a table as a partial function from (key, column label) to the cell:
  \<open>None\<close> where the table has no such cell, \<open>Some None\<close> where the cell is missing
  (NaN), \<open>Some (Some v)\<close> where it holds \<open>v\<close>.
\<close>

definition content :: "('k, 'v) dataframe \<Rightarrow> 'k \<times> string \<Rightarrow> 'v option option" where
  "content t = (\<lambda>(k, c).
     case map_of (rows t) k of
       None \<Rightarrow> None
     | Some cs \<Rightarrow> map_of (zip (columns t) cs) c)"

text \<open>
  The cells of the row of a key as they stand in a merged table whose keys are \<open>U\<close>:
  converted to \<open>float64\<close> when the table lacks one of the keys \<open>U\<close>.
\<close>

definition cells_in :: "('k, int) dataframe \<Rightarrow> 'k set \<Rightarrow> 'k \<Rightarrow> int option list" where
  "cells_in t U k = (if U \<subseteq> set (index t) then cells t k else to_float64 (cells t k))"

text \<open>The cell of a key under a column label, in a merged table whose keys are \<open>U\<close>.\<close>

definition lookup_in ::
  "('k, int) dataframe \<Rightarrow> 'k set \<Rightarrow> 'k \<Rightarrow> string \<Rightarrow> int option option" where
  "lookup_in t U k c = map_of (zip (columns t) (cells_in t U k)) c"

text \<open>
  A table whose counts the conversion to \<open>float64\<close> leaves as they are; so it is when
  no count exceeds \<open>2 ^ 53\<close> in magnitude.
\<close>

definition float_exact :: "('k, int) dataframe \<Rightarrow> bool" where
  "float_exact t \<longleftrightarrow> (\<forall>row \<in> set (rows t). to_float64 (snd row) = snd row)"

text \<open>
  The index of the merge of the tables \<open>ts\<close>, in whatever order they are merged: their
  common index when they all have the same index, the sorted keys otherwise.
\<close>

definition merged_index :: "('k::linorder, 'v) dataframe list \<Rightarrow> 'k list" where
  "merged_index ts =
     (if \<forall>t \<in> set ts. index t = index (hd ts) then index (hd ts)
      else sort (remdups (concat (map index ts))))"

text \<open>
  \<open>merged_of m ts\<close>: the table \<open>m\<close> is the merge of the keyed tables \<open>ts\<close>. Its keys
  are the union of their keys, in the order \<open>merged_index ts\<close>; the row of a key is the
  concatenation of the rows that the tables have for the key, in the order of \<open>ts\<close>,
  missing cells standing for a table that lacks the key and the counts of a table that
  lacks a key of \<open>m\<close> converted to \<open>float64\<close>; its column labels are those of the
  tables in the same order where no label occurs twice.
\<close>

definition merged_of :: "('k::linorder, int) dataframe \<Rightarrow> ('k, int) dataframe list \<Rightarrow> bool" where
  "merged_of m ts \<longleftrightarrow>
     ts \<noteq> [] \<and> (\<forall>t \<in> set ts. keyed t) \<and> keyed m \<and>
     set (index m) = (\<Union>t \<in> set ts. set (index t)) \<and>
     index m = merged_index ts \<and>
     (\<forall>U k. set (index m) \<subseteq> U \<longrightarrow> cells_in m U k = concat (map (\<lambda>t. cells_in t U k) ts)) \<and>
     (distinct (concat (map columns ts)) \<longrightarrow> columns m = concat (map columns ts))"

section \<open>Example inputs\<close>

text \<open>Three count files of two genes each, as \<open>read_counts\<close> loads them.\<close>

definition sample_A :: "(string, int) dataframe" where
  "sample_A = \<lparr> columns = [''A''], rows = [(''g1'', [Some 1]), (''g2'', [Some 2])] \<rparr>"

definition sample_B :: "(string, int) dataframe" where
  "sample_B = \<lparr> columns = [''B''], rows = [(''g1'', [Some 10]), (''g2'', [Some 20])] \<rparr>"

definition sample_C :: "(string, int) dataframe" where
  "sample_C = \<lparr> columns = [''C''], rows = [(''g1'', [Some 100]), (''g2'', [Some 200])] \<rparr>"

text \<open>A second file whose sample name is also \<open>A\<close>, and a file with other genes.\<close>

definition sample_A' :: "(string, int) dataframe" where
  "sample_A' = \<lparr> columns = [''A''], rows = [(''g1'', [Some 3]), (''g2'', [Some 4])] \<rparr>"

definition sample_E :: "(string, int) dataframe" where
  "sample_E = \<lparr> columns = [''E''], rows = [(''g2'', [Some 5]), (''g3'', [Some 6])] \<rparr>"

text \<open>A file that lacks the gene \<open>g2\<close>.\<close>

definition sample_D :: "(string, int) dataframe" where
  "sample_D = \<lparr> columns = [''D''], rows = [(''g1'', [Some 7])] \<rparr>"

text \<open>Two more files with the genes of the first three.\<close>

definition sample_F :: "(string, int) dataframe" where
  "sample_F = \<lparr> columns = [''F''], rows = [(''g1'', [Some 4]), (''g2'', [Some 5])] \<rparr>"

definition sample_G :: "(string, int) dataframe" where
  "sample_G = \<lparr> columns = [''G''], rows = [(''g1'', [Some 6]), (''g2'', [Some 7])] \<rparr>"

text \<open>A file named \<open>A\<close> with the counts of \<open>sample_B\<close>.\<close>

definition sample_A10 :: "(string, int) dataframe" where
  "sample_A10 = \<lparr> columns = [''A''], rows = [(''g1'', [Some 10]), (''g2'', [Some 20])] \<rparr>"

text \<open>A file with a count that \<open>float64\<close> cannot hold: \<open>2 ^ 53 + 1\<close>.\<close>

definition sample_D53 :: "(string, int) dataframe" where
  "sample_D53 = \<lparr> columns = [''D''], rows = [(''g1'', [Some 9007199254740993])] \<rparr>"

section \<open>Lemmas\<close>

lemma deref_simps [simp]:
  "deref s [] = []"
  "deref s (r # rs) = frames s ! r # deref s rs"
  "deref s (rs @ rs') = deref s rs @ deref s rs'"
  by (simp_all add: deref_def)

lemma deref_extend:
  "valid_refs rs s \<Longrightarrow> frames s' = frames s @ ys \<Longrightarrow> deref s' rs = deref s rs"
  by (auto simp: valid_refs_def deref_def nth_append)

lemma valid_refs_extend:
  "valid_refs rs s \<Longrightarrow> frames s' = frames s @ ys \<Longrightarrow> valid_refs rs s'"
  by (auto simp: valid_refs_def)

lemma pair_round_effect:
  assumes "valid_refs xs s" "valid_refs acc s" "pair_round xs acc s = (out, s')"
  shows "(\<exists>ys. frames s' = frames s @ ys) \<and> valid_refs out s' \<and>
         deref s' out = deref s acc @ pair_frames (deref s xs) \<and>
         pbar_n s' = pbar_n s + (length xs + 1) div 2 \<and>
         merge_calls s' = merge_calls s + length xs div 2 \<and>
         pbar_total s' = pbar_total s \<and> dfs_list s' = dfs_list s \<and> work_list s' = work_list s"
  using assms
proof (induction xs acc s arbitrary: out s' rule: pair_round.induct)
  case (1 merged_dfs s)
  then show ?case by auto
next
  case (2 one merged_dfs s)
  then show ?case by (auto simp: deref_def pbar_update_def valid_refs_def)
next
  case (3 one two rest merged_dfs s)
  obtain m s1 where m: "merge_st one two s = (m, s1)" by (cases "merge_st one two s")
  let ?s2 = "pbar_update s1"
  have f: "frames ?s2 = frames s @ [merge_outer (frames s ! one) (frames s ! two)]"
    and mm: "m = length (frames s)"
    and c: "pbar_n ?s2 = pbar_n s + 1" "merge_calls ?s2 = merge_calls s + 1"
       "pbar_total ?s2 = pbar_total s" "dfs_list ?s2 = dfs_list s" "work_list ?s2 = work_list s"
    using m by (auto simp: merge_st_def pbar_update_def)
  have v1: "valid_refs rest ?s2" using "3.prems"(1) f by (auto simp: valid_refs_def)
  have v2: "valid_refs (merged_dfs @ [m]) ?s2"
    using "3.prems"(2) f mm by (auto simp: valid_refs_def)
  have run: "pair_round rest (merged_dfs @ [m]) ?s2 = (out, s')"
    using "3.prems"(3) m by simp
  note ih = "3.IH" [OF m [symmetric] v1 v2 run]
  have d1: "deref ?s2 rest = deref s rest"
    using "3.prems"(1) f by (auto simp: valid_refs_def deref_def nth_append)
  have d2: "deref ?s2 (merged_dfs @ [m]) = deref s merged_dfs @ [merge_outer (frames s ! one) (frames s ! two)]"
    using "3.prems"(2) f mm by (auto simp: valid_refs_def deref_def nth_append)
  from ih obtain ys where ys: "frames s' = frames ?s2 @ ys" by blast
  have "deref s' out = deref s merged_dfs @ pair_frames (deref s (one # two # rest))"
    using ih d1 d2 by simp
  then show ?case
    using ih c f ys by simp
qed

lemma pair_round_two:
  "pair_round [one, two] [] s = (out, s') \<Longrightarrow> out = [length (frames s)]"
  by (auto simp: merge_st_def split: prod.splits)

lemma num_iterations_loop_acc:
  "num_iterations_loop n k = k + num_iterations_loop n 0"
proof (induction n arbitrary: k rule: less_induct)
  case (less n)
  show ?case
  proof (cases "n > 1")
    case True
    let ?amt = "(n + 1) div 2"
    have lt: "?amt < n" using True by simp
    have "num_iterations_loop n k = num_iterations_loop ?amt (k + ?amt)"
      using True by (simp add: Let_def num_iterations_loop.simps [of n])
    also have "\<dots> = (k + ?amt) + num_iterations_loop ?amt 0"
      using less.IH [OF lt] .
    finally have a: "num_iterations_loop n k = (k + ?amt) + num_iterations_loop ?amt 0" .
    have "num_iterations_loop n 0 = num_iterations_loop ?amt ?amt"
      using True by (simp add: Let_def num_iterations_loop.simps [of n])
    also have "\<dots> = ?amt + num_iterations_loop ?amt 0"
      using less.IH [OF lt] .
    finally show ?thesis using a by simp
  next
    case False
    then show ?thesis by (simp add: num_iterations_loop.simps [of n])
  qed
qed

lemma num_iterations_loop_short: "n \<le> 1 \<Longrightarrow> num_iterations_loop n k = k"
  by (simp add: num_iterations_loop.simps [of n])

lemma reduce_frames_short: "length ts \<le> 1 \<Longrightarrow> reduce_frames ts = ts"
  by (simp add: reduce_frames.simps [of ts])

lemma reduce_frames_step: "length ts > 1 \<Longrightarrow> reduce_frames ts = reduce_frames (pair_frames ts)"
  by (simp add: reduce_frames.simps [of ts])

lemma length_deref [simp]: "length (deref s rs) = length rs"
  by (simp add: deref_def)

lemma outer_loop_effect:
  assumes "valid_refs (contents dfs s) s" "outer_loop dfs s = (dfs', s')"
  shows "(\<exists>ys. frames s' = frames s @ ys) \<and> valid_refs (contents dfs' s') s' \<and>
         deref s' (contents dfs' s') = reduce_frames (deref s (contents dfs s)) \<and>
         pbar_n s' = pbar_n s + num_iterations_loop (length (contents dfs s)) 0 \<and>
         merge_calls s' = merge_calls s + (length (contents dfs s) - 1) \<and>
         pbar_total s' = pbar_total s \<and>
         length (contents dfs' s') = min 1 (length (contents dfs s)) \<and>
         (if length (contents dfs s) > 1
          then dfs' = Work \<and> (\<forall>r \<in> set (contents dfs' s'). length (frames s) \<le> r) \<and>
               dfs_list s' = (if dfs = Arg then [] else dfs_list s)
          else dfs' = dfs \<and> s' = s)"
  using assms
proof (induction dfs s arbitrary: dfs' s' rule: outer_loop.induct)
  case (1 dfs s)
  let ?xs = "contents dfs s"
  show ?case
  proof (cases "length ?xs > 1")
    case False
    then have "outer_loop dfs s = (dfs, s)" by (simp add: outer_loop.simps)
    with "1.prems" False show ?thesis
      by (auto simp: reduce_frames_short num_iterations_loop_short min_def)
  next
    case True
    let ?s0 = "set_contents dfs [] s"
    obtain out s1 where r: "inner_loop dfs [] s = (out, s1)" by (cases "inner_loop dfs [] s")
    then have pr: "pair_round ?xs [] ?s0 = (out, s1)" by (simp add: inner_loop_pair_round)
    have f0: "frames ?s0 = frames s" "pbar_n ?s0 = pbar_n s" "merge_calls ?s0 = merge_calls s"
      "pbar_total ?s0 = pbar_total s" "dfs_list ?s0 = (if dfs = Arg then [] else dfs_list s)"
      by (cases dfs; simp)+
    have v0: "valid_refs ?xs ?s0" "valid_refs [] ?s0"
      using "1.prems"(1) f0 by (auto simp: valid_refs_def)
    note e = pair_round_effect [OF v0 pr]
    let ?s2 = "s1\<lparr>work_list := out\<rparr>"
    have run: "outer_loop Work ?s2 = (dfs', s')"
      using "1.prems"(2) True r by (simp add: outer_loop.simps [of dfs s])
    have v2: "valid_refs (contents Work ?s2) ?s2" using e by (simp add: valid_refs_def)
    note ih = "1.IH" [OF True r [symmetric] v2 run]
    have d0: "deref ?s0 ?xs = deref s ?xs" using f0 by (simp add: deref_def)
    have "deref ?s2 out = deref s1 out" by (simp add: deref_def)
    then have d2: "deref ?s2 out = pair_frames (deref s ?xs)"
      using e d0 by simp
    have len: "length out = (length ?xs + 1) div 2"
      using pr length_pair_round [of ?xs "[]" ?s0] by simp
    have red: "reduce_frames (deref s ?xs) = reduce_frames (pair_frames (deref s ?xs))"
      using True by (simp add: reduce_frames_step)
    have it: "num_iterations_loop (length ?xs) 0 = (length ?xs + 1) div 2 + num_iterations_loop ((length ?xs + 1) div 2) 0"
      using True num_iterations_loop_acc [of "(length ?xs + 1) div 2" "(length ?xs + 1) div 2"]
      by (simp add: Let_def num_iterations_loop.simps [of "length ?xs"])
    have fr: "\<forall>r \<in> set (contents dfs' s'). length (frames s) \<le> r"
    proof (cases "length out > 1")
      case True
      then have "\<forall>r \<in> set (contents dfs' s'). length (frames ?s2) \<le> r" using ih by simp
      moreover have "length (frames s) \<le> length (frames ?s2)" using e f0 by auto
      ultimately show ?thesis by fastforce
    next
      case False
      then have l2: "length ?xs = 2" using len \<open>length ?xs > 1\<close> by simp
      then obtain a b where ab: "?xs = [a, b]"
        by (cases ?xs; cases "tl ?xs"; cases "tl (tl ?xs)") auto
      then have "out = [length (frames s)]" using pr pair_round_two [of a b ?s0 out s1] f0 by simp
      moreover have "dfs' = Work \<and> s' = ?s2" using ih False by simp
      ultimately show ?thesis by simp
    qed
    have dl: "dfs_list s' = (if dfs = Arg then [] else dfs_list s)"
      using ih e f0 by (auto split: if_splits)
    have dw: "dfs' = Work" using ih by (auto split: if_splits)
    have fs: "\<exists>ys. frames s' = frames s @ ys" using ih e f0 by auto
    have mc: "merge_calls s' = merge_calls s + (length ?xs - 1)"
      using ih e f0 len True by simp
    have pn: "pbar_n s' = pbar_n s + num_iterations_loop (length ?xs) 0"
      using ih e f0 len it by simp
    have ln: "length (contents dfs' s') = min 1 (length ?xs)"
      using ih len True by (simp add: min_def)
    have pt: "pbar_total s' = pbar_total s" using ih e f0 by simp
    have dr: "deref s' (contents dfs' s') = reduce_frames (deref s ?xs)"
      using ih d2 red by simp
    have vr: "valid_refs (contents dfs' s') s'" using ih by simp
    show ?thesis using True fr dl dw fs mc pn ln pt dr vr by simp
  qed
qed

lemma sequential_loop_effect:
  assumes "valid_refs xs s" "r < length (frames s)" "sequential_loop xs (Some r) s = (res, s')"
  shows "\<exists>r'. res = Some r' \<and> r' < length (frames s') \<and>
           (\<exists>ys. frames s' = frames s @ ys) \<and>
           frames s' ! r' = foldl merge_outer (frames s ! r) (deref s xs) \<and>
           merge_calls s' = merge_calls s + length xs \<and>
           pbar_n s' = pbar_n s \<and> pbar_total s' = pbar_total s \<and>
           dfs_list s' = dfs_list s \<and> work_list s' = work_list s \<and>
           (if xs = [] then r' = r \<and> s' = s else length (frames s) \<le> r')"
  using assms
proof (induction xs arbitrary: r s)
  case Nil
  then show ?case by auto
next
  case (Cons x xs)
  obtain m s1 where m: "merge_st r x s = (m, s1)" by (cases "merge_st r x s")
  have f: "frames s1 = frames s @ [merge_outer (frames s ! r) (frames s ! x)]"
    and mm: "m = length (frames s)"
    and c: "merge_calls s1 = merge_calls s + 1" "pbar_n s1 = pbar_n s"
       "pbar_total s1 = pbar_total s" "dfs_list s1 = dfs_list s" "work_list s1 = work_list s"
    using m by (auto simp: merge_st_def)
  have v: "valid_refs xs s1" using Cons.prems(1) f by (auto simp: valid_refs_def)
  have ml: "m < length (frames s1)" using f mm by simp
  have run: "sequential_loop xs (Some m) s1 = (res, s')" using Cons.prems(3) m by simp
  note ih = Cons.IH [OF v ml run]
  have d: "deref s1 xs = deref s xs"
    using Cons.prems(1) f by (auto simp: valid_refs_def deref_def nth_append)
  have fm: "frames s1 ! m = merge_outer (frames s ! r) (frames s ! x)" using f mm by simp
  from ih obtain r' where r': "res = Some r'" "r' < length (frames s')"
     "frames s' ! r' = foldl merge_outer (frames s1 ! m) (deref s1 xs)"
     "if xs = [] then r' = m \<and> s' = s1 else length (frames s1) \<le> r'" by blast
  have fresh: "length (frames s) \<le> r'" using r'(4) mm f by (auto split: if_splits)
  have "frames s' ! r' = foldl merge_outer (frames s ! r) (deref s (x # xs))"
    using r'(3) d fm by simp
  moreover have "\<exists>ys. frames s' = frames s @ ys" using ih f by auto
  ultimately show ?case using ih r' c fresh by simp
qed

lemma sequential_loop_result:
  assumes "dfs_list s \<noteq> []" "valid_refs (dfs_list s) s"
  shows "\<exists>r s'. sequential_loop (dfs_list s) None s = (Some r, s') \<and> r < length (frames s') \<and>
           (\<exists>ys. frames s' = frames s @ ys) \<and>
           frames s' ! r = foldl merge_outer (hd (deref s (dfs_list s))) (tl (deref s (dfs_list s))) \<and>
           merge_calls s' = merge_calls s + (length (dfs_list s) - 1) \<and>
           pbar_n s' = pbar_n s \<and> pbar_total s' = pbar_total s \<and>
           dfs_list s' = dfs_list s \<and> work_list s' = work_list s \<and>
           (if length (dfs_list s) = 1 then r = hd (dfs_list s) \<and> s' = s
            else length (frames s) \<le> r)"
proof -
  obtain x xs where xs: "dfs_list s = x # xs" using assms(1) by (cases "dfs_list s") auto
  obtain res s' where run: "sequential_loop xs (Some x) s = (res, s')"
    by (cases "sequential_loop xs (Some x) s")
  have v: "valid_refs xs s" "x < length (frames s)"
    using assms(2) xs by (auto simp: valid_refs_def)
  from sequential_loop_effect [OF v run] xs run show ?thesis by auto
qed

lemma outer_loop_result:
  assumes "dfs_list s \<noteq> []" "valid_refs (dfs_list s) s"
  shows "\<exists>dfs' r s'. outer_loop Arg s = (dfs', s') \<and> contents dfs' s' = [r] \<and>
           r < length (frames s') \<and> (\<exists>ys. frames s' = frames s @ ys) \<and>
           [frames s' ! r] = reduce_frames (deref s (dfs_list s)) \<and>
           pbar_n s' = pbar_n s + num_iterations_loop (length (dfs_list s)) 0 \<and>
           merge_calls s' = merge_calls s + (length (dfs_list s) - 1) \<and>
           pbar_total s' = pbar_total s \<and>
           (if length (dfs_list s) = 1 then r = hd (dfs_list s) \<and> s' = s
            else length (frames s) \<le> r \<and> dfs_list s' = [])"
proof -
  obtain dfs' s' where run: "outer_loop Arg s = (dfs', s')" by (cases "outer_loop Arg s")
  have v: "valid_refs (contents Arg s) s" using assms(2) by simp
  note e = outer_loop_effect [OF v run]
  have "length (contents dfs' s') = 1" using e assms(1) by (cases "dfs_list s") (auto simp: min_def)
  then obtain r where r: "contents dfs' s' = [r]"
    by (cases "contents dfs' s'") auto
  have rl: "r < length (frames s')" using e r by (simp add: valid_refs_def)
  have rf: "[frames s' ! r] = reduce_frames (deref s (dfs_list s))" using e r by simp
  have common: "(\<exists>ys. frames s' = frames s @ ys) \<and>
           pbar_n s' = pbar_n s + num_iterations_loop (length (dfs_list s)) 0 \<and>
           merge_calls s' = merge_calls s + (length (dfs_list s) - 1) \<and>
           pbar_total s' = pbar_total s"
    using e by simp
  have "if length (dfs_list s) = 1 then r = hd (dfs_list s) \<and> s' = s
            else length (frames s) \<le> r \<and> dfs_list s' = []"
  proof (cases "length (dfs_list s) = 1")
    case True
    then have "dfs' = Arg" "s' = s" using e by auto
    then show ?thesis using r True by simp
  next
    case False
    then have "length (dfs_list s) > 1" using assms(1) by (cases "dfs_list s") auto
    then show ?thesis using e r False by simp
  qed
  with run r rl rf common show ?thesis by blast
qed

lemma join_dataframes_sequentially_result:
  assumes "dfs_list s \<noteq> []" "sequential_loop (dfs_list s) None s = (Some r, s')"
  shows "join_dataframes_sequentially s = (check_shape (frames s' ! r) (expected_shape s) r, s')"
  using assms by (simp add: join_dataframes_sequentially_def check_shape_def expected_shape_def)

lemma join_dataframes_recursively_result:
  assumes "dfs_list s \<noteq> []"
    "outer_loop Arg (s\<lparr>pbar_total := num_iterations_loop (length (dfs_list s)) 0, pbar_n := 0\<rparr>) = (dfs', s')"
    "contents dfs' s' = [r]"
  shows "join_dataframes_recursively s =
           (check_shape (frames (set_columns r (sort (columns (frames s' ! r))) s') ! r) (expected_shape s) r,
            set_columns r (sort (columns (frames s' ! r))) s')"
  using assms by (simp add: join_dataframes_recursively_def check_shape_def expected_shape_def Let_def)

lemma sequential_summary:
  assumes "dfs_list s \<noteq> []" "valid_refs (dfs_list s) s"
  shows "\<exists>r s'. join_dataframes_sequentially s =
                   (check_shape (frames s' ! r) (expected_shape s) r, s') \<and>
           r < length (frames s') \<and> (\<exists>ys. frames s' = frames s @ ys) \<and>
           frames s' ! r = foldl merge_outer (hd (deref s (dfs_list s))) (tl (deref s (dfs_list s))) \<and>
           merge_calls s' = merge_calls s + (length (dfs_list s) - 1) \<and>
           pbar_n s' = pbar_n s \<and> pbar_total s' = pbar_total s \<and>
           dfs_list s' = dfs_list s \<and> work_list s' = work_list s \<and>
           (if length (dfs_list s) = 1 then r = hd (dfs_list s) \<and> s' = s
            else length (frames s) \<le> r)"
proof -
  from sequential_loop_result [OF assms] obtain r s' where
    run: "sequential_loop (dfs_list s) None s = (Some r, s')" and
    rest: "r < length (frames s') \<and> (\<exists>ys. frames s' = frames s @ ys) \<and>
           frames s' ! r = foldl merge_outer (hd (deref s (dfs_list s))) (tl (deref s (dfs_list s))) \<and>
           merge_calls s' = merge_calls s + (length (dfs_list s) - 1) \<and>
           pbar_n s' = pbar_n s \<and> pbar_total s' = pbar_total s \<and>
           dfs_list s' = dfs_list s \<and> work_list s' = work_list s \<and>
           (if length (dfs_list s) = 1 then r = hd (dfs_list s) \<and> s' = s
            else length (frames s) \<le> r)"
    by blast
  from join_dataframes_sequentially_result [OF assms(1) run] rest show ?thesis by blast
qed

lemma recursive_summary:
  assumes "dfs_list s \<noteq> []" "valid_refs (dfs_list s) s"
  shows "\<exists>r s' ys. join_dataframes_recursively s =
                   (check_shape (frames s' ! r) (expected_shape s) r, s') \<and>
           r < length (frames s') \<and>
           frames s' = (frames s @ ys)[r := sort_columns ((frames s @ ys) ! r)] \<and>
           [frames s' ! r] = map sort_columns (reduce_frames (deref s (dfs_list s))) \<and>
           merge_calls s' = merge_calls s + (length (dfs_list s) - 1) \<and>
           pbar_total s' = num_iterations_loop (length (dfs_list s)) 0 \<and>
           pbar_n s' = num_iterations_loop (length (dfs_list s)) 0 \<and>
           (if length (dfs_list s) = 1 then r = hd (dfs_list s) \<and> dfs_list s' = dfs_list s \<and> ys = []
            else length (frames s) \<le> r \<and> dfs_list s' = [])"
proof -
  let ?s1 = "s\<lparr>pbar_total := num_iterations_loop (length (dfs_list s)) 0, pbar_n := 0\<rparr>"
  have a1: "dfs_list ?s1 \<noteq> []" "valid_refs (dfs_list ?s1) ?s1"
    using assms by (simp_all add: valid_refs_def)
  from outer_loop_result [OF a1] obtain dfs' r s2 where
    run: "outer_loop Arg ?s1 = (dfs', s2)" and c: "contents dfs' s2 = [r]" and
    rl: "r < length (frames s2)" and fr: "\<exists>ys. frames s2 = frames ?s1 @ ys" and
    red: "[frames s2 ! r] = reduce_frames (deref ?s1 (dfs_list ?s1))" and
    cnt: "pbar_n s2 = pbar_n ?s1 + num_iterations_loop (length (dfs_list ?s1)) 0"
         "merge_calls s2 = merge_calls ?s1 + (length (dfs_list ?s1) - 1)"
         "pbar_total s2 = pbar_total ?s1" and
    al: "if length (dfs_list ?s1) = 1 then r = hd (dfs_list ?s1) \<and> s2 = ?s1
         else length (frames ?s1) \<le> r \<and> dfs_list s2 = []"
    by blast
  let ?s3 = "set_columns r (sort (columns (frames s2 ! r))) s2"
  from fr obtain ys where ys: "frames s2 = frames s @ ys" by auto
  have f3: "frames ?s3 = (frames s @ ys)[r := sort_columns ((frames s @ ys) ! r)]"
    using ys by (simp add: set_columns_def sort_columns_def)
  have o3: "merge_calls ?s3 = merge_calls s2" "pbar_total ?s3 = pbar_total s2"
    "pbar_n ?s3 = pbar_n s2" "dfs_list ?s3 = dfs_list s2"
    by (simp_all add: set_columns_def)
  have r3: "frames ?s3 ! r = sort_columns (frames s2 ! r)"
    using rl by (simp add: set_columns_def sort_columns_def)
  have d1: "deref ?s1 (dfs_list ?s1) = deref s (dfs_list s)" by (simp add: deref_def)
  have red3: "[frames ?s3 ! r] = map sort_columns (reduce_frames (deref s (dfs_list s)))"
    using red r3 d1 by (metis list.simps(8) list.simps(9))
  have al3: "if length (dfs_list s) = 1 then r = hd (dfs_list s) \<and> dfs_list ?s3 = dfs_list s \<and> ys = []
            else length (frames s) \<le> r \<and> dfs_list ?s3 = []"
    using al o3 ys by (auto split: if_splits)
  have "join_dataframes_recursively s = (check_shape (frames ?s3 ! r) (expected_shape s) r, ?s3)"
    using join_dataframes_recursively_result [OF assms(1) run c] .
  moreover have "r < length (frames ?s3)" using rl by (simp add: set_columns_def)
  ultimately show ?thesis using f3 red3 cnt o3 al3 by (intro exI [of _ r] exI [of _ ?s3] exI [of _ ys]) simp
qed

lemma sort_columns_single: "length (columns t) = 1 \<Longrightarrow> sort_columns t = t"
proof -
  assume "length (columns t) = 1"
  then obtain c where "columns t = [c]" by (cases "columns t") auto
  then show ?thesis by (simp add: sort_columns_def)
qed

subsection \<open>The conversion to floating-point numbers\<close>

lemma bit_length_bounds: "n > 0 \<Longrightarrow> 2 ^ (bit_length n - 1) \<le> n \<and> n < 2 ^ bit_length n"
proof (induction n rule: bit_length.induct)
  case (1 n)
  show ?case
  proof (cases "n div 2 = 0")
    case True
    then have "n = 1" using "1.prems" by simp
    then show ?thesis
      by (simp add: bit_length.simps [of "Suc 0"] bit_length.simps [of 0])
  next
    case False
    then have ih: "2 ^ (bit_length (n div 2) - 1) \<le> n div 2" "n div 2 < 2 ^ bit_length (n div 2)"
      using "1.IH" "1.prems" by auto
    have b: "bit_length n = Suc (bit_length (n div 2))"
      using "1.prems" by (simp add: bit_length.simps [of n])
    have pos: "bit_length (n div 2) > 0"
      using False by (simp add: bit_length.simps [of "n div 2"])
    then obtain m where m: "bit_length (n div 2) = Suc m" by (cases "bit_length (n div 2)") auto
    have "2 * 2 ^ m \<le> n" using ih(1) m by simp
    moreover have "n < 2 * 2 ^ Suc m" using ih(2) m by simp
    ultimately show ?thesis using b m by simp
  qed
qed

lemma bit_length_unique:
  assumes "2 ^ k \<le> n" "n < 2 ^ Suc k"
  shows "bit_length n = Suc k"
proof -
  have n: "n > 0" using assms(1) by (metis less_le_trans zero_less_numeral zero_less_power)
  from bit_length_bounds [OF n] have b: "2 ^ (bit_length n - 1) \<le> n" "n < 2 ^ bit_length n" by auto
  have "(2::nat) ^ k < 2 ^ bit_length n" using assms(1) b(2) by linarith
  then have 1: "k < bit_length n" by (rule power_less_imp_less_exp [rotated]) simp
  have "(2::nat) ^ (bit_length n - 1) < 2 ^ Suc k" using assms(2) b(1) by linarith
  then have 2: "bit_length n - 1 < Suc k" by (rule power_less_imp_less_exp [rotated]) simp
  from 1 2 show ?thesis by linarith
qed

lemma bit_length_small: "n < 2 ^ k \<Longrightarrow> bit_length n \<le> k"
proof (cases "n = 0")
  case True
  then show ?thesis by (simp add: bit_length.simps [of 0])
next
  case False
  assume "n < 2 ^ k"
  moreover have "2 ^ (bit_length n - 1) \<le> n" using False bit_length_bounds by simp
  ultimately have "(2::nat) ^ (bit_length n - 1) < 2 ^ k" by linarith
  then have "bit_length n - 1 < k" by (rule power_less_imp_less_exp [rotated]) simp
  then show ?thesis by simp
qed

lemma round_half_even_multiple: "round_half_even (q * 2 ^ e) e = q"
  by (simp add: round_half_even_def Let_def)

lemma float64_of_nat_multiple:
  assumes "2 ^ 52 \<le> q" "q < 2 ^ 53"
  shows "float64_of_nat (q * 2 ^ e) = q * 2 ^ e"
proof -
  have "(2::nat) ^ (52 + e) \<le> q * 2 ^ e" using assms(1) by (simp add: power_add)
  moreover have "q * 2 ^ e < 2 ^ Suc (52 + e)" using assms(2) by (simp add: power_add)
  ultimately have "bit_length (q * 2 ^ e) = Suc (52 + e)" by (rule bit_length_unique)
  then have "bit_length (q * 2 ^ e) - 53 = e" by simp
  then show ?thesis by (simp add: float64_of_nat_def Let_def round_half_even_multiple)
qed

lemma float64_of_nat_small: "a < 2 ^ 53 \<Longrightarrow> float64_of_nat a = a"
proof -
  assume "a < 2 ^ 53"
  then have "bit_length a - 53 = 0" using bit_length_small [of a 53] by simp
  then show ?thesis by (simp add: float64_of_nat_def Let_def round_half_even_def)
qed

lemma float64_of_nat_power: "float64_of_nat (2 ^ (53 + e)) = 2 ^ (53 + e)"
proof -
  have "(2::nat) ^ (53 + e) = 2 ^ 52 * 2 ^ Suc e" by (simp add: power_add)
  then show ?thesis using float64_of_nat_multiple [of "2 ^ 52" "Suc e"] by simp
qed

lemma float64_of_nat_idem: "float64_of_nat (float64_of_nat a) = float64_of_nat a"
proof (cases "a < 2 ^ 53")
  case True
  then show ?thesis by (simp add: float64_of_nat_small)
next
  case False
  then have a: "2 ^ 53 \<le> a" by simp
  then have pos: "a > 0" by (metis less_le_trans zero_less_numeral zero_less_power)
  from bit_length_bounds [OF pos] have b: "2 ^ (bit_length a - 1) \<le> a" "a < 2 ^ bit_length a"
    by auto
  have "(2::nat) ^ 53 < 2 ^ bit_length a" using a b(2) by linarith
  then have "53 < bit_length a" by (rule power_less_imp_less_exp [rotated]) simp
  then obtain e where e: "bit_length a = 53 + Suc e"
    by (metis add_Suc_right less_imp_Suc_add)
  let ?e = "Suc e"
  let ?q = "a div 2 ^ ?e"
  have lo: "2 ^ 52 * 2 ^ ?e \<le> a" using b(1) e by (simp add: power_add)
  have hi: "a < 2 ^ 53 * 2 ^ ?e" using b(2) e by (simp add: power_add)
  have q1: "2 ^ 52 \<le> ?q" using lo by (simp add: less_eq_div_iff_mult_less_eq)
  have q2: "?q < 2 ^ 53" using hi by (simp add: div_less_iff_less_mult)
  let ?r = "round_half_even a ?e"
  have r: "?r = ?q \<or> ?r = ?q + 1" by (simp add: round_half_even_def Let_def)
  have f: "float64_of_nat a = ?r * 2 ^ ?e" using e by (simp add: float64_of_nat_def Let_def)
  show ?thesis
  proof (cases "?r < 2 ^ 53")
    case True
    have "2 ^ 52 \<le> ?r" using r q1 by auto
    from float64_of_nat_multiple [OF this True, of ?e] show ?thesis unfolding f .
  next
    case False
    then have "?r = 2 ^ 53" using r q2 by auto
    then have "float64_of_nat a = 2 ^ (53 + ?e)" using f by (simp add: power_add)
    then show ?thesis using float64_of_nat_power [of ?e] by simp
  qed
qed

lemma float64_of_nat_zero_iff: "float64_of_nat a = 0 \<longleftrightarrow> a = 0"
proof (cases "a < 2 ^ 53")
  case True
  then show ?thesis by (simp add: float64_of_nat_small)
next
  case False
  then have a: "2 ^ 53 \<le> a" by simp
  then have pos: "a > 0" by (metis less_le_trans zero_less_numeral zero_less_power)
  let ?e = "bit_length a - 53"
  have "2 ^ ?e \<le> a"
  proof -
    have "2 ^ (bit_length a - 1) \<le> a" using bit_length_bounds [OF pos] by simp
    moreover have "(2::nat) ^ ?e \<le> 2 ^ (bit_length a - 1)" by (rule power_increasing) auto
    ultimately show ?thesis by linarith
  qed
  then have "a div 2 ^ ?e > 0" by (simp add: div_greater_zero_iff)
  then have "round_half_even a ?e > 0" by (simp add: round_half_even_def Let_def)
  then show ?thesis using pos by (simp add: float64_of_nat_def Let_def)
qed

lemma float64_of_int_idem: "float64_of_int (float64_of_int n) = float64_of_int n"
proof (cases "n = 0")
  case True
  then show ?thesis by (simp add: float64_of_int_def float64_of_nat_small)
next
  case False
  let ?m = "float64_of_nat (nat \<bar>n\<bar>)"
  have m: "?m > 0" using False float64_of_nat_zero_iff [of "nat \<bar>n\<bar>"] by simp
  have s: "sgn (sgn n * int ?m) = sgn n" using m False by (simp add: sgn_mult)
  have "\<bar>sgn n * int ?m\<bar> = int ?m" using False by (simp add: abs_mult)
  then have "nat \<bar>sgn n * int ?m\<bar> = ?m" by simp
  then show ?thesis using s by (simp add: float64_of_int_def float64_of_nat_idem)
qed

lemma float64_of_int_exact: "\<bar>n\<bar> \<le> 2 ^ 53 \<Longrightarrow> float64_of_int n = n"
proof -
  assume a: "\<bar>n\<bar> \<le> 2 ^ 53"
  let ?a = "nat \<bar>n\<bar>"
  have le: "?a \<le> 2 ^ 53" using a by (simp add: nat_le_iff)
  have "float64_of_nat ?a = ?a"
  proof (cases "?a = 2 ^ 53")
    case True
    then show ?thesis using float64_of_nat_power [of 0] by simp
  next
    case False
    then have "?a < 2 ^ 53" using le by simp
    then show ?thesis by (rule float64_of_nat_small)
  qed
  then show ?thesis by (simp add: float64_of_int_def mult_sgn_abs)
qed

lemma bit_length_numeral [simp]:
  "bit_length 0 = 0"
  "bit_length (Suc 0) = 1"
  "bit_length 1 = 1"
  "bit_length (numeral Num.One) = 1"
  "bit_length (numeral (Num.Bit0 k)) = Suc (bit_length (numeral k))"
  "bit_length (numeral (Num.Bit1 k)) = Suc (bit_length (numeral k))"
proof -
  show "bit_length 0 = 0" by (simp add: bit_length.simps [of 0])
  show s: "bit_length (Suc 0) = 1"
    by (simp add: bit_length.simps [of "Suc 0"] bit_length.simps [of 0])
  then show "bit_length 1 = 1" by simp
  show "bit_length (numeral Num.One) = 1" using s by simp
  have "numeral (Num.Bit0 k) div 2 = (numeral k :: nat)" by simp
  then show "bit_length (numeral (Num.Bit0 k)) = Suc (bit_length (numeral k))"
    by (simp add: bit_length.simps [of "numeral (Num.Bit0 k)"])
  have "numeral (Num.Bit1 k) div 2 = (numeral k :: nat)" by simp
  then show "bit_length (numeral (Num.Bit1 k)) = Suc (bit_length (numeral k))"
    by (simp add: bit_length.simps [of "numeral (Num.Bit1 k)"])
qed

subsection \<open>The outer join of two keyed tables\<close>

lemma length_to_float64 [simp]: "length (to_float64 cs) = length cs"
  by (simp add: to_float64_def)

lemma to_float64_replicate [simp]: "to_float64 (replicate n None) = replicate n None"
  by (simp add: to_float64_def)

lemma to_float64_append [simp]: "to_float64 (xs @ ys) = to_float64 xs @ to_float64 ys"
  by (simp add: to_float64_def)

lemma to_float64_idem [simp]: "to_float64 (to_float64 cs) = to_float64 cs"
  by (simp add: to_float64_def option.map_comp comp_def float64_of_int_idem)

lemma filter_distinct_keys:
  "distinct (map fst ps) \<Longrightarrow>
   map snd (filter (\<lambda>r. fst r = k) ps) = (case map_of ps k of None \<Rightarrow> [] | Some v \<Rightarrow> [v])"
proof (induction ps)
  case Nil
  then show ?case by simp
next
  case (Cons p ps)
  show ?case
  proof (cases "fst p = k")
    case True
    then have "k \<notin> fst ` set ps" using Cons.prems by auto
    then have "filter (\<lambda>r. fst r = k) ps = []" by (auto simp: filter_empty_conv)
    then show ?thesis using True by (cases p) simp
  next
    case False
    then show ?thesis using Cons by (cases p) auto
  qed
qed

lemma rows_at_keyed: "distinct (index t) \<Longrightarrow> rows_at t keys k = [cells_in t (set keys) k]"
  by (simp add: rows_at_def cells_in_def cells_def index_def filter_distinct_keys
           split: option.splits)

lemma rows_merge_outer:
  assumes "distinct (index l)" "distinct (index r)"
  shows "rows (merge_outer l r) =
           map (\<lambda>k. (k, cells_in l (set (join_index l r)) k @ cells_in r (set (join_index l r)) k))
             (join_index l r)"
proof -
  have "concat (map (\<lambda>k. [(k, f k)]) ks) = map (\<lambda>k. (k, f k)) ks"
    for ks :: "'a list" and f :: "'a \<Rightarrow> int option list"
    by (induction ks) auto
  then show ?thesis using assms by (simp add: merge_outer_def rows_at_keyed)
qed

lemma index_merge_outer:
  assumes "distinct (index l)" "distinct (index r)"
  shows "index (merge_outer l r) = join_index l r"
  using rows_merge_outer [OF assms] by (simp add: index_def comp_def)

lemma set_join_index: "set (join_index l r) = set (index l) \<union> set (index r)"
  by (auto simp: join_index_def)

lemma distinct_join_index: "distinct (join_index l r)"
  by (auto simp: join_index_def)

lemma length_add_suffix [simp]: "length (add_suffix cols other sfx) = length cols"
  by (simp add: add_suffix_def)

lemma length_columns_merge_outer:
  "length (columns (merge_outer l r)) = length (columns l) + length (columns r)"
  by (simp add: merge_outer_def)

lemma add_suffix_disjoint: "set cols \<inter> set other = {} \<Longrightarrow> add_suffix cols other sfx = cols"
  unfolding add_suffix_def by (rule map_idI) auto

lemma columns_merge_outer:
  "set (columns l) \<inter> set (columns r) = {} \<Longrightarrow> columns (merge_outer l r) = columns l @ columns r"
  by (simp add: merge_outer_def add_suffix_disjoint Int_commute)

lemma length_cells: "keyed t \<Longrightarrow> length (cells t k) = length (columns t)"
  by (auto simp: keyed_def cells_def split: option.splits dest!: map_of_SomeD)

lemma length_cells_in: "keyed t \<Longrightarrow> length (cells_in t U k) = length (columns t)"
  by (simp add: cells_in_def length_cells)

lemma cells_absent: "k \<notin> set (index t) \<Longrightarrow> cells t k = replicate (length (columns t)) None"
  by (simp add: cells_def index_def map_of_eq_None_iff [THEN iffD2])

lemma cells_in_absent:
  "k \<notin> set (index t) \<Longrightarrow> cells_in t U k = replicate (length (columns t)) None"
  by (simp add: cells_in_def cells_absent)

lemma cells_in_index [simp]: "cells_in t (set (index t)) k = cells t k"
  by (simp add: cells_in_def)

lemma to_float64_cells_in:
  "\<not> U \<subseteq> set (index t) \<Longrightarrow> to_float64 (cells_in t V k) = cells_in t U k"
  by (simp add: cells_in_def)

lemma map_of_rows_present:
  "k \<in> set (index t) \<Longrightarrow> map_of (rows t) k = Some (cells t k)"
  by (auto simp: cells_def index_def split: option.splits simp: map_of_eq_None_iff)

lemma map_of_key_table:
  "map_of (map (\<lambda>k. (k, f k)) ks) k = (if k \<in> set ks then Some (f k) else None)"
  by (induction ks) auto

lemma cells_merge_outer:
  assumes "keyed l" "keyed r"
  shows "cells (merge_outer l r) k =
           cells_in l (set (index l) \<union> set (index r)) k @
           cells_in r (set (index l) \<union> set (index r)) k"
proof -
  have d: "distinct (index l)" "distinct (index r)" using assms by (simp_all add: keyed_def)
  show ?thesis
  proof (cases "k \<in> set (index l) \<union> set (index r)")
    case True
    then show ?thesis
      by (simp add: cells_def [of "merge_outer l r"] rows_merge_outer [OF d] map_of_key_table
                    set_join_index)
  next
    case False
    then have "cells_in l (set (index l) \<union> set (index r)) k = replicate (length (columns l)) None"
      "cells_in r (set (index l) \<union> set (index r)) k = replicate (length (columns r)) None"
      by (simp_all add: cells_in_absent)
    with False show ?thesis
      by (simp add: cells_def [of "merge_outer l r"] rows_merge_outer [OF d] map_of_key_table
                    length_columns_merge_outer replicate_add set_join_index)
  qed
qed

lemma keyed_merge_outer:
  assumes "keyed l" "keyed r"
  shows "keyed (merge_outer l r)"
proof -
  have d: "distinct (index l)" "distinct (index r)" using assms by (simp_all add: keyed_def)
  show ?thesis
    using assms
    by (auto simp: keyed_def [of "merge_outer l r"] index_merge_outer [OF d] rows_merge_outer [OF d]
                   length_cells_in length_columns_merge_outer distinct_join_index)
qed

lemma set_index_merge_outer:
  "keyed l \<Longrightarrow> keyed r \<Longrightarrow> set (index (merge_outer l r)) = set (index l) \<union> set (index r)"
  by (simp add: keyed_def index_merge_outer set_join_index)

lemma cells_in_merge_outer:
  assumes "keyed l" "keyed r" "set (index l) \<union> set (index r) \<subseteq> U"
  shows "cells_in (merge_outer l r) U k = cells_in l U k @ cells_in r U k"
proof (cases "U \<subseteq> set (index l) \<union> set (index r)")
  case True
  then have "U = set (index l) \<union> set (index r)" using assms(3) by auto
  then show ?thesis
    using assms(1,2) by (simp add: cells_in_def [of "merge_outer l r"] set_index_merge_outer
                                   cells_merge_outer)
next
  case False
  then have "\<not> U \<subseteq> set (index l)" "\<not> U \<subseteq> set (index r)" by auto
  then show ?thesis
    using assms(1,2) False
    by (simp add: cells_in_def [of "merge_outer l r"] set_index_merge_outer cells_merge_outer
                  to_float64_cells_in)
qed

lemma rows_keyed: "keyed t \<Longrightarrow> rows t = map (\<lambda>k. (k, cells t k)) (index t)"
proof -
  assume "keyed t"
  then have d: "distinct (map fst (rows t))" by (simp add: keyed_def index_def)
  have "\<forall>p \<in> set (rows t). map_of (rows t) (fst p) = Some (snd p)"
    using d by auto
  then have "map (\<lambda>p. (fst p, cells t (fst p))) (rows t) = rows t"
    by (intro map_idI) (auto simp: cells_def)
  then show ?thesis by (simp add: index_def comp_def)
qed

lemma content_lookup_in:
  "content t (k, c) = (if k \<in> set (index t) then lookup_in t (set (index t)) k c else None)"
proof (cases "k \<in> set (index t)")
  case True
  then show ?thesis by (simp add: content_def lookup_in_def map_of_rows_present)
next
  case False
  then have "map_of (rows t) k = None" by (simp add: index_def map_of_eq_None_iff)
  with False show ?thesis by (simp add: content_def)
qed

lemma lookup_in_None_iff: "keyed t \<Longrightarrow> lookup_in t U k c = None \<longleftrightarrow> c \<notin> set (columns t)"
proof -
  assume "keyed t"
  then have "dom (map_of (zip (columns t) (cells_in t U k))) = set (columns t)"
    by (simp add: length_cells_in)
  then show ?thesis unfolding lookup_in_def by (metis domIff)
qed

lemma lookup_in_absent:
  "k \<notin> set (index t) \<Longrightarrow> c \<in> set (columns t) \<Longrightarrow> lookup_in t U k c = Some None"
proof -
  have "c \<in> set cs \<Longrightarrow> map_of (zip cs (replicate (length cs) v)) c = Some v"
    for cs :: "string list" and v :: "int option"
    by (induction cs) auto
  then show "k \<notin> set (index t) \<Longrightarrow> c \<in> set (columns t) \<Longrightarrow> lookup_in t U k c = Some None"
    by (simp add: lookup_in_def cells_in_absent)
qed

lemma lookup_in_merge_outer:
  assumes "keyed l" "keyed r" "set (columns l) \<inter> set (columns r) = {}"
    and "set (index l) \<union> set (index r) \<subseteq> U"
  shows "lookup_in (merge_outer l r) U k c =
           (case lookup_in l U k c of Some v \<Rightarrow> Some v | None \<Rightarrow> lookup_in r U k c)"
  unfolding lookup_in_def using assms
  by (simp add: columns_merge_outer cells_in_merge_outer length_cells_in map_add_def)

lemma content_merge_outer3:
  assumes "keyed X" "keyed Y" "keyed Z"
    "set (columns X) \<inter> set (columns Y) = {}" "set (columns X) \<inter> set (columns Z) = {}"
    "set (columns Y) \<inter> set (columns Z) = {}"
    and U: "U = set (index X) \<union> set (index Y) \<union> set (index Z)"
  shows "content (merge_outer (merge_outer X Y) Z) (k, c) =
           (if k \<in> U then
              if c \<in> set (columns X) then lookup_in X U k c
              else if c \<in> set (columns Y) then lookup_in Y U k c
              else lookup_in Z U k c
            else None)"
    and "content (merge_outer X (merge_outer Y Z)) (k, c) =
           (if k \<in> U then
              if c \<in> set (columns X) then lookup_in X U k c
              else if c \<in> set (columns Y) then lookup_in Y U k c
              else lookup_in Z U k c
            else None)"
proof -
  have kxy: "keyed (merge_outer X Y)" and kyz: "keyed (merge_outer Y Z)"
    using assms by (simp_all add: keyed_merge_outer)
  have cxy: "columns (merge_outer X Y) = columns X @ columns Y"
    and cyz: "columns (merge_outer Y Z) = columns Y @ columns Z"
    using assms by (simp_all add: columns_merge_outer)
  have d1: "set (columns (merge_outer X Y)) \<inter> set (columns Z) = {}"
    using assms cxy by auto
  have d2: "set (columns X) \<inter> set (columns (merge_outer Y Z)) = {}"
    using assms cyz by auto
  have ixy: "set (index (merge_outer X Y)) = set (index X) \<union> set (index Y)"
    and iyz: "set (index (merge_outer Y Z)) = set (index Y) \<union> set (index Z)"
    using assms by (simp_all add: set_index_merge_outer)
  have u1: "set (index (merge_outer (merge_outer X Y) Z)) = U"
    using kxy assms(3) ixy U by (simp add: set_index_merge_outer)
  have u2: "set (index (merge_outer X (merge_outer Y Z))) = U"
    using kyz assms(1) iyz U by (auto simp: set_index_merge_outer)
  have s1: "set (index (merge_outer X Y)) \<union> set (index Z) \<subseteq> U" "set (index X) \<union> set (index Y) \<subseteq> U"
    "set (index X) \<union> set (index (merge_outer Y Z)) \<subseteq> U" "set (index Y) \<union> set (index Z) \<subseteq> U"
    using ixy iyz U by auto
  have n: "c \<notin> set (columns X) \<Longrightarrow> lookup_in X U k c = None"
    "c \<notin> set (columns Y) \<Longrightarrow> lookup_in Y U k c = None"
    using assms by (simp_all add: lookup_in_None_iff)
  have s: "c \<in> set (columns X) \<Longrightarrow> \<exists>v. lookup_in X U k c = Some v"
    "c \<in> set (columns Y) \<Longrightarrow> \<exists>v. lookup_in Y U k c = Some v"
    using assms lookup_in_None_iff [of X U k c] lookup_in_None_iff [of Y U k c] by auto
  show "content (merge_outer (merge_outer X Y) Z) (k, c) =
           (if k \<in> U then
              if c \<in> set (columns X) then lookup_in X U k c
              else if c \<in> set (columns Y) then lookup_in Y U k c
              else lookup_in Z U k c
            else None)"
    using n s
    by (auto simp: content_lookup_in u1
          lookup_in_merge_outer [OF kxy assms(3) d1 s1(1)]
          lookup_in_merge_outer [OF assms(1,2,4) s1(2)]
          split: option.splits)
  show "content (merge_outer X (merge_outer Y Z)) (k, c) =
           (if k \<in> U then
              if c \<in> set (columns X) then lookup_in X U k c
              else if c \<in> set (columns Y) then lookup_in Y U k c
              else lookup_in Z U k c
            else None)"
    using n s
    by (auto simp: content_lookup_in u2
          lookup_in_merge_outer [OF assms(1) kyz d2 s1(3)]
          lookup_in_merge_outer [OF assms(2,3,6) s1(4)]
          split: option.splits)
qed

subsection \<open>The merge of a list of keyed tables\<close>

lemma merged_index_single [simp]: "merged_index [t] = index t"
  by (simp add: merged_index_def)

lemma merged_ofD:
  assumes "merged_of m ts"
  shows "ts \<noteq> []" "\<forall>t \<in> set ts. keyed t" "keyed m"
    "set (index m) = (\<Union>t \<in> set ts. set (index t))"
    "index m = merged_index ts"
    "set (index m) \<subseteq> U \<Longrightarrow> cells_in m U k = concat (map (\<lambda>t. cells_in t U k) ts)"
    "distinct (concat (map columns ts)) \<Longrightarrow> columns m = concat (map columns ts)"
  using assms unfolding merged_of_def by blast+

lemma merged_of_single: "keyed t \<Longrightarrow> merged_of t [t]"
  by (simp add: merged_of_def)

lemma sorted_merged_index:
  "\<not> (\<forall>t \<in> set ts. index t = index (hd ts)) \<Longrightarrow>
   sorted (merged_index ts) \<and> distinct (merged_index ts) \<and>
   set (merged_index ts) = (\<Union>t \<in> set ts. set (index t))"
proof -
  assume "\<not> (\<forall>t \<in> set ts. index t = index (hd ts))"
  then have "merged_index ts = sort (remdups (concat (map index ts)))"
    unfolding merged_index_def by (rule if_not_P)
  then show ?thesis by simp
qed

lemma merged_index_same:
  assumes "ts \<noteq> []" "\<forall>t \<in> set ts. index t = I"
  shows "merged_index ts = I"
proof -
  have "hd ts \<in> set ts" using assms(1) by simp
  then have h: "index (hd ts) = I" using assms(2) by blast
  have "\<forall>t \<in> set ts. index t = index (hd ts)" unfolding h using assms(2) .
  then have "merged_index ts = index (hd ts)" unfolding merged_index_def by (rule if_P)
  then show ?thesis unfolding h .
qed

lemma merged_index_append:
  assumes "xs \<noteq> []" "ys \<noteq> []"
    and "distinct (merged_index xs)"
    and "set (merged_index xs) = (\<Union>t \<in> set xs. set (index t))"
    and "set (merged_index ys) = (\<Union>t \<in> set ys. set (index t))"
  shows "(if distinct (merged_index xs) \<and> merged_index xs = merged_index ys then merged_index xs
          else sort (remdups (merged_index xs @ merged_index ys))) = merged_index (xs @ ys)"
proof (cases "\<forall>t \<in> set (xs @ ys). index t = index (hd (xs @ ys))")
  case True
  define I where "I = index (hd (xs @ ys))"
  have a: "\<forall>t \<in> set (xs @ ys). index t = I" using True unfolding I_def .
  then have x: "\<forall>t \<in> set xs. index t = I" and y: "\<forall>t \<in> set ys. index t = I" by auto
  have n: "xs @ ys \<noteq> []" using assms(1) by simp
  have "merged_index xs = I" "merged_index ys = I" "merged_index (xs @ ys) = I"
    using merged_index_same [OF assms(1) x] merged_index_same [OF assms(2) y]
      merged_index_same [OF n a] .
  then show ?thesis using assms(3) by simp
next
  case False
  let ?S = "\<Union>t \<in> set (xs @ ys). set (index t)"
  have m: "sorted (merged_index (xs @ ys))" "distinct (merged_index (xs @ ys))"
    "set (merged_index (xs @ ys)) = ?S"
    using sorted_merged_index [OF False] by blast+
  show ?thesis
  proof (cases "merged_index xs = merged_index ys")
    case ne: False
    have "set (sort (remdups (merged_index xs @ merged_index ys))) = ?S"
      unfolding set_sort set_remdups set_append assms(4,5) by auto
    then have "sort (remdups (merged_index xs @ merged_index ys)) = merged_index (xs @ ys)"
      using m by (intro sorted_distinct_set_unique) simp_all
    then show ?thesis using ne by simp
  next
    case eq: True
    have S: "set (merged_index xs) = ?S"
    proof -
      have "set (merged_index xs) = set (merged_index xs) \<union> set (merged_index ys)"
        unfolding eq by simp
      also have "\<dots> = ?S" unfolding assms(4,5) by auto
      finally show ?thesis .
    qed
    have "sorted (merged_index xs)"
    proof (cases "\<forall>t \<in> set xs. index t = index (hd xs)")
      case nx: False
      then show ?thesis using sorted_merged_index [of xs] by blast
    next
      case x: True
      have "\<not> (\<forall>t \<in> set ys. index t = index (hd ys))"
      proof
        assume y: "\<forall>t \<in> set ys. index t = index (hd ys)"
        have mx: "merged_index xs = index (hd xs)" using merged_index_same [OF assms(1) x] .
        have my: "merged_index ys = index (hd ys)" using merged_index_same [OF assms(2) y] .
        have e: "index (hd ys) = index (hd xs)" using eq unfolding mx my by simp
        have y': "\<forall>t \<in> set ys. index t = index (hd xs)" using y unfolding e .
        have h: "hd (xs @ ys) = hd xs" using assms(1) by simp
        have "\<forall>t \<in> set (xs @ ys). index t = index (hd (xs @ ys))"
          unfolding h
        proof
          fix t
          assume "t \<in> set (xs @ ys)"
          then have "t \<in> set xs \<or> t \<in> set ys" by simp
          then show "index t = index (hd xs)" using x y' by blast
        qed
        then show False using False by blast
      qed
      then have "sorted (merged_index ys)" using sorted_merged_index [of ys] by blast
      then show ?thesis unfolding eq .
    qed
    then have "merged_index xs = merged_index (xs @ ys)"
      using m S assms(3) by (intro sorted_distinct_set_unique) simp_all
    then show ?thesis using eq assms(3) by simp
  qed
qed

lemma merged_of_merge_outer:
  assumes "merged_of a xs" "merged_of b ys"
  shows "merged_of (merge_outer a b) (xs @ ys)"
proof -
  note A = merged_ofD [OF assms(1)] and B = merged_ofD [OF assms(2)]
  have ka: "keyed a" and kb: "keyed b" using A(3) B(3) .
  have d: "distinct (index a)" "distinct (index b)" using ka kb by (simp_all add: keyed_def)
  have ne: "xs \<noteq> []" "ys \<noteq> []" using A(1) B(1) .
  have ia: "index a = merged_index xs" "set (index a) = (\<Union>t \<in> set xs. set (index t))"
    and ib: "index b = merged_index ys" "set (index b) = (\<Union>t \<in> set ys. set (index t))"
    using A(4,5) B(4,5) by simp_all
  have cols: "columns (merge_outer a b) = concat (map columns (xs @ ys))"
    if dc: "distinct (concat (map columns (xs @ ys)))"
  proof -
    have dx: "distinct (concat (map columns xs))" "distinct (concat (map columns ys))"
      and dj: "set (concat (map columns xs)) \<inter> set (concat (map columns ys)) = {}"
      using dc by auto
    have "columns a = concat (map columns xs)" "columns b = concat (map columns ys)"
      using A(7) B(7) dx by simp_all
    then show ?thesis using dj by (simp add: columns_merge_outer)
  qed
  have s: "set (index (merge_outer a b)) = (\<Union>t \<in> set (xs @ ys). set (index t))"
    unfolding set_index_merge_outer [OF ka kb] ia(2) ib(2) by auto
  have mx: "distinct (merged_index xs)" "set (merged_index xs) = (\<Union>t \<in> set xs. set (index t))"
    "set (merged_index ys) = (\<Union>t \<in> set ys. set (index t))"
    using d(1) ia ib by simp_all
  have i: "index (merge_outer a b) = merged_index (xs @ ys)"
    unfolding index_merge_outer [OF d] join_index_def ia(1) ib(1)
    using merged_index_append [OF ne mx] .
  have c: "cells_in (merge_outer a b) U k = concat (map (\<lambda>t. cells_in t U k) (xs @ ys))"
    if "set (index (merge_outer a b)) \<subseteq> U" for U k
  proof -
    have u: "set (index a) \<union> set (index b) \<subseteq> U" "set (index a) \<subseteq> U" "set (index b) \<subseteq> U"
      using that ka kb by (simp_all add: set_index_merge_outer)
    have "cells_in a U k = concat (map (\<lambda>t. cells_in t U k) xs)"
      "cells_in b U k = concat (map (\<lambda>t. cells_in t U k) ys)"
      using A(6) B(6) u(2,3) by simp_all
    then show ?thesis using cells_in_merge_outer [OF ka kb u(1)] by simp
  qed
  have k: "\<forall>t \<in> set (xs @ ys). keyed t" using A(2) B(2) by auto
  have n: "xs @ ys \<noteq> []" using ne by simp
  show ?thesis
    unfolding merged_of_def [of "merge_outer a b"]
    using n k keyed_merge_outer [OF ka kb] s i c cols by (intro conjI allI impI) assumption+
qed

lemma merged_of_foldl:
  "merged_of a xs \<Longrightarrow> \<forall>t \<in> set ts. keyed t \<Longrightarrow> merged_of (foldl merge_outer a ts) (xs @ ts)"
proof (induction ts arbitrary: a xs)
  case Nil
  then show ?case by simp
next
  case (Cons t ts)
  have "merged_of (merge_outer a t) (xs @ [t])"
    using Cons.prems by (intro merged_of_merge_outer merged_of_single) auto
  from Cons.IH [OF this] Cons.prems show ?case by simp
qed

lemma merged_of_pair_frames:
  "list_all2 merged_of ms tss \<Longrightarrow>
   \<exists>tss'. list_all2 merged_of (pair_frames ms) tss' \<and> concat tss' = concat tss"
proof (induction ms arbitrary: tss rule: pair_frames.induct)
  case 1
  then show ?case by simp
next
  case (2 one)
  then show ?case by (intro exI [of _ tss]) simp
next
  case (3 one two rest)
  from "3.prems" obtain t1 t2 tr where t: "tss = t1 # t2 # tr" "merged_of one t1"
    "merged_of two t2" "list_all2 merged_of rest tr"
    by (auto simp: list_all2_Cons1)
  from "3.IH" [OF t(4)] obtain tr' where tr': "list_all2 merged_of (pair_frames rest) tr'"
    "concat tr' = concat tr" by blast
  have "merged_of (merge_outer one two) (t1 @ t2)"
    using t by (simp add: merged_of_merge_outer)
  then show ?case using tr' t(1) by (intro exI [of _ "(t1 @ t2) # tr'"]) simp
qed

lemma merged_of_reduce_frames:
  "list_all2 merged_of ms tss \<Longrightarrow> ms \<noteq> [] \<Longrightarrow>
   \<exists>m. reduce_frames ms = [m] \<and> merged_of m (concat tss)"
proof (induction ms arbitrary: tss rule: reduce_frames.induct)
  case (1 ms)
  show ?case
  proof (cases "length ms > 1")
    case True
    from merged_of_pair_frames [OF "1.prems"(1)] obtain tss' where
      t: "list_all2 merged_of (pair_frames ms) tss'" "concat tss' = concat tss" by blast
    have "pair_frames ms \<noteq> []" using True by (cases ms rule: pair_frames.cases) auto
    from "1.IH" [OF True t(1) this] t(2) True show ?thesis
      by (simp add: reduce_frames_step)
  next
    case False
    then obtain m where m: "ms = [m]" using "1.prems"(2) by (cases ms) auto
    then obtain ts where "tss = [ts]" "merged_of m ts" using "1.prems"(1)
      by (auto simp: list_all2_Cons1)
    then show ?thesis using m by (simp add: reduce_frames_short)
  qed
qed

lemma merged_of_reduce_frames_inputs:
  assumes "ts \<noteq> []" "\<forall>t \<in> set ts. keyed t"
  shows "\<exists>m. reduce_frames ts = [m] \<and> merged_of m ts"
proof -
  have "list_all2 merged_of ts (map (\<lambda>t. [t]) ts)"
    using assms(2) by (induction ts) (auto simp: merged_of_single)
  moreover have "concat (map (\<lambda>t. [t]) ts) = ts" by (induction ts) auto
  ultimately show ?thesis using merged_of_reduce_frames [of ts "map (\<lambda>t. [t]) ts"] assms(1) by simp
qed

lemma merged_of_sequential:
  assumes "ts \<noteq> []" "\<forall>t \<in> set ts. keyed t"
  shows "merged_of (foldl merge_outer (hd ts) (tl ts)) ts"
proof -
  obtain t ts' where t: "ts = t # ts'" using assms(1) by (cases ts) auto
  have "merged_of (foldl merge_outer t ts') ([t] @ ts')"
    using assms(2) t by (intro merged_of_foldl merged_of_single) auto
  then show ?thesis using t by simp
qed

lemma cells_merged_of:
  assumes "merged_of m ts"
  shows "cells m k = concat (map (\<lambda>t. cells_in t (set (index m)) k) ts)"
proof -
  have "cells_in m (set (index m)) k = concat (map (\<lambda>t. cells_in t (set (index m)) k) ts)"
    by (rule merged_ofD(6) [OF assms]) simp
  then show ?thesis by simp
qed

lemma merged_of_unique:
  assumes "merged_of m ts" "merged_of m' ts" "distinct (concat (map columns ts))"
  shows "m = m'"
proof -
  have i: "index m = index m'" using merged_ofD(5) [OF assms(1)] merged_ofD(5) [OF assms(2)] by simp
  have "\<forall>k. cells m k = cells m' k"
    using cells_merged_of [OF assms(1)] cells_merged_of [OF assms(2)] i by simp
  then have "rows m = rows m'"
    using merged_ofD(3) [OF assms(1)] merged_ofD(3) [OF assms(2)] i
      rows_keyed [of m] rows_keyed [of m'] by simp
  moreover have "columns m = columns m'"
    using merged_ofD(7) [OF assms(1) assms(3)] merged_ofD(7) [OF assms(2) assms(3)] by simp
  ultimately show ?thesis by simp
qed

lemma shape_merged_of:
  assumes "merged_of m ts"
  shows "shape m = (card (\<Union>t \<in> set ts. set (index t)), sum_list (map (\<lambda>t. length (columns t)) ts))"
proof -
  have k: "keyed m" "\<forall>t \<in> set ts. keyed t" using merged_ofD(2,3) [OF assms] by simp_all
  have "length (rows m) = length (index m)" by (simp add: index_def)
  also have "\<dots> = card (set (index m))" using k by (simp add: keyed_def distinct_card)
  finally have r: "length (rows m) = card (\<Union>t \<in> set ts. set (index t))"
    unfolding merged_ofD(4) [OF assms] .
  have "length (columns m) = length (cells m undefined)" using k by (simp add: length_cells)
  also have "\<dots> = length (concat (map (\<lambda>t. cells_in t (set (index m)) undefined) ts))"
    using cells_merged_of [OF assms] by simp
  also have "\<dots> = sum_list (map (\<lambda>t. length (columns t)) ts)"
    using k(2) by (induction ts) (auto simp: length_cells_in)
  finally show ?thesis using r by (simp add: shape_def)
qed

subsection \<open>The shape check and the comparison of the two reducers\<close>

lemma sort_columns_simps [simp]:
  "rows (sort_columns t) = rows t"
  "index (sort_columns t) = index t"
  "columns (sort_columns t) = sort (columns t)"
  "cells (sort_columns t) k = cells t k"
  "cells_in (sort_columns t) U k = cells_in t U k"
  "shape (sort_columns t) = shape t"
  "keyed (sort_columns t) = keyed t"
  by (simp_all add: sort_columns_def index_def cells_def cells_in_def shape_def keyed_def
               split: option.splits)

lemma rows_single_keyed: "keyed t \<Longrightarrow> fst (shape t) = card (set (index t))"
proof -
  assume "keyed t"
  then have "distinct (index t)" by (simp add: keyed_def)
  then have "card (set (index t)) = length (index t)" by (rule distinct_card)
  then show ?thesis by (simp add: shape_def index_def)
qed

lemma shape_check_merged_of:
  assumes "merged_of m ts"
  shows "(\<exists>t \<in> set ts. \<not> set (index t) \<subseteq> set (index (hd ts))) \<Longrightarrow>
           fst (shape m) \<noteq> fst (shape (hd ts))"
    and "(\<forall>t \<in> set ts. set (index t) \<subseteq> set (index (hd ts))) \<Longrightarrow>
         (\<forall>t \<in> set ts. length (columns t) = 1) \<Longrightarrow>
           shape m = (fst (shape (hd ts)), length ts)"
proof -
  have ne: "ts \<noteq> []" and k: "\<forall>t \<in> set ts. keyed t" using merged_ofD(1,2) [OF assms] .
  then have h: "hd ts \<in> set ts" "keyed (hd ts)" by simp_all
  let ?U = "\<Union>t \<in> set ts. set (index t)"
  have sub: "set (index (hd ts)) \<subseteq> ?U" using h by auto
  have fin: "finite ?U" by simp
  {
    assume "\<exists>t \<in> set ts. \<not> set (index t) \<subseteq> set (index (hd ts))"
    then have "set (index (hd ts)) \<subset> ?U" using sub by auto
    then have "card (set (index (hd ts))) < card ?U" using fin by (rule psubset_card_mono [rotated])
    then show "fst (shape m) \<noteq> fst (shape (hd ts))"
      using shape_merged_of [OF assms] rows_single_keyed [OF h(2)] by simp
  }
  {
    assume a: "\<forall>t \<in> set ts. set (index t) \<subseteq> set (index (hd ts))"
      and c: "\<forall>t \<in> set ts. length (columns t) = 1"
    have "?U = set (index (hd ts))" using a sub by auto
    moreover have "sum_list (map (\<lambda>t. length (columns t)) ts) = length ts"
      using c by (induction ts) auto
    ultimately show "shape m = (fst (shape (hd ts)), length ts)"
      using shape_merged_of [OF assms] rows_single_keyed [OF h(2)] by simp
  }
qed

lemma expected_shape_deref:
  "dfs_list s \<noteq> [] \<Longrightarrow>
   expected_shape s = (fst (shape (hd (deref s (dfs_list s)))), length (deref s (dfs_list s)))"
  by (cases "dfs_list s") (simp_all add: expected_shape_def)

lemma sequential_keyed:
  assumes "dfs_list s \<noteq> []" "valid_refs (dfs_list s) s" "\<forall>t \<in> set (deref s (dfs_list s)). keyed t"
  shows "\<exists>r s'. join_dataframes_sequentially s =
                   (check_shape (frames s' ! r) (expected_shape s) r, s') \<and>
           r < length (frames s') \<and> (\<exists>ys. frames s' = frames s @ ys) \<and>
           dfs_list s' = dfs_list s \<and>
           merged_of (frames s' ! r) (deref s (dfs_list s)) \<and>
           (if length (dfs_list s) = 1 then r = hd (dfs_list s) \<and> s' = s
            else length (frames s) \<le> r)"
proof -
  have ne: "deref s (dfs_list s) \<noteq> []" using assms(1) by (simp add: deref_def)
  from sequential_summary [OF assms(1,2)] obtain r s' where
    a: "join_dataframes_sequentially s = (check_shape (frames s' ! r) (expected_shape s) r, s')"
       "r < length (frames s')" "\<exists>ys. frames s' = frames s @ ys"
       "frames s' ! r = foldl merge_outer (hd (deref s (dfs_list s))) (tl (deref s (dfs_list s)))"
       "dfs_list s' = dfs_list s"
       "if length (dfs_list s) = 1 then r = hd (dfs_list s) \<and> s' = s else length (frames s) \<le> r"
    by blast
  have "merged_of (frames s' ! r) (deref s (dfs_list s))"
    using merged_of_sequential [OF ne assms(3)] a(4) by simp
  with a show ?thesis by blast
qed

lemma recursive_keyed:
  assumes "dfs_list s \<noteq> []" "valid_refs (dfs_list s) s" "\<forall>t \<in> set (deref s (dfs_list s)). keyed t"
  shows "\<exists>r s' ys m. join_dataframes_recursively s =
                   (check_shape (frames s' ! r) (expected_shape s) r, s') \<and>
           r < length (frames s') \<and>
           frames s' = (frames s @ ys)[r := sort_columns ((frames s @ ys) ! r)] \<and>
           frames s' ! r = sort_columns m \<and>
           merged_of m (deref s (dfs_list s)) \<and>
           (if length (dfs_list s) = 1 then r = hd (dfs_list s) \<and> dfs_list s' = dfs_list s \<and> ys = []
            else length (frames s) \<le> r \<and> dfs_list s' = [])"
proof -
  have ne: "deref s (dfs_list s) \<noteq> []" using assms(1) by (simp add: deref_def)
  from recursive_summary [OF assms(1,2)] obtain r s' ys where
    a: "join_dataframes_recursively s = (check_shape (frames s' ! r) (expected_shape s) r, s')"
       "r < length (frames s')"
       "frames s' = (frames s @ ys)[r := sort_columns ((frames s @ ys) ! r)]"
       "[frames s' ! r] = map sort_columns (reduce_frames (deref s (dfs_list s)))"
       "if length (dfs_list s) = 1 then r = hd (dfs_list s) \<and> dfs_list s' = dfs_list s \<and> ys = []
        else length (frames s) \<le> r \<and> dfs_list s' = []"
    by (elim exE conjE) (erule meta_mp [rotated -1], assumption+)
  from merged_of_reduce_frames_inputs [OF ne assms(3)] obtain m where
    m: "reduce_frames (deref s (dfs_list s)) = [m]" "merged_of m (deref s (dfs_list s))" by blast
  have "frames s' ! r = sort_columns m" using a(4) m(1) by simp
  with a m(2) show ?thesis by blast
qed

lemma assert_frame_equal_iff: "assert_frame_equal l r \<longleftrightarrow> l = r"
proof
  assume a: "assert_frame_equal l r"
  then have "map fst (rows l) = map fst (rows r)" "map snd (rows l) = map snd (rows r)"
    by (simp_all add: assert_frame_equal_def index_def)
  then have "rows l = rows r" by (metis zip_map_fst_snd)
  moreover have "columns l = columns r" using a by (simp add: assert_frame_equal_def)
  ultimately show "l = r" by simp
next
  assume "l = r"
  then show "assert_frame_equal l r" by (simp add: assert_frame_equal_def)
qed

lemma reduce_frames_single: "reduce_frames [t] = [t]"
  by (simp add: reduce_frames_short)

lemma reducers_agree:
  assumes "ts \<noteq> []" "\<forall>t \<in> set ts. keyed t \<and> length (columns t) = 1"
    and "sorted (concat (map columns ts))" "distinct (concat (map columns ts))"
  shows "foldl merge_outer (hd ts) (tl ts) = sort_columns (hd (reduce_frames ts))"
proof -
  have k: "\<forall>t \<in> set ts. keyed t" using assms(2) by simp
  from merged_of_reduce_frames_inputs [OF assms(1) k] obtain m where
    m: "reduce_frames ts = [m]" "merged_of m ts" by blast
  have s: "merged_of (foldl merge_outer (hd ts) (tl ts)) ts"
    using merged_of_sequential [OF assms(1) k] .
  have "columns m = concat (map columns ts)" using merged_ofD(7) [OF m(2) assms(4)] .
  then have "sort (columns m) = columns m" using assms(3) by (simp add: sorted_sort_id)
  then have sm: "sort_columns m = m" by (simp add: sort_columns_def)
  from merged_of_unique [OF s m(2) assms(4)] m(1) sm show ?thesis by simp
qed

lemma expected_shape_extend:
  assumes "dfs_list s \<noteq> []" "valid_refs (dfs_list s) s" "frames s' = frames s @ ys"
    "dfs_list s' = dfs_list s"
  shows "expected_shape s' = expected_shape s"
proof -
  have "dfs_list s ! 0 < length (frames s)"
    using assms(1,2) by (cases "dfs_list s") (auto simp: valid_refs_def)
  then show ?thesis using assms(3,4) by (simp add: expected_shape_def nth_append)
qed

lemma concordance_test_result:
  assumes "dfs_list s \<noteq> []" "valid_refs (dfs_list s) s"
    and "ts = deref s (dfs_list s)"
    and "expected = (fst (shape (hd ts)), length ts)"
    and "m1 = foldl merge_outer (hd ts) (tl ts)"
    and "m2 = sort_columns (hd (reduce_frames ts))"
  shows "fst (concordance_test s) =
           (if shape m1 \<noteq> expected then Inl (raise_error (Output_matrix_shape (shape m1) expected))
            else if shape m2 \<noteq> expected then Inl (raise_error (Output_matrix_shape (shape m2) expected))
            else if m1 = m2 then Inr () else Inl AssertionError)"
proof -
  have ex: "expected_shape s = expected" using assms by (simp add: expected_shape_deref)
  from sequential_summary [OF assms(1,2)] obtain r1 s1 ys1 where
    q: "join_dataframes_sequentially s = (check_shape (frames s1 ! r1) expected r1, s1)"
       "r1 < length (frames s1)" "frames s1 = frames s @ ys1" "frames s1 ! r1 = m1"
       "dfs_list s1 = dfs_list s"
       "if length (dfs_list s) = 1 then r1 = hd (dfs_list s) \<and> s1 = s else length (frames s) \<le> r1"
    unfolding ex assms(3) [symmetric] assms(5) [symmetric]
    by - (elim exE conjE, rule that, assumption+)
  show ?thesis
  proof (cases "shape m1 \<noteq> expected")
    case True
    then show ?thesis using q(1,4) by (simp add: concordance_test_def check_shape_def)
  next
    case False
    then have seq: "join_dataframes_sequentially s = (Inr r1, s1)"
      using q(1,4) by (simp add: check_shape_def)
    have ne1: "dfs_list s1 \<noteq> []" using assms(1) q(5) by simp
    have v1: "valid_refs (dfs_list s1) s1"
      using valid_refs_extend [OF assms(2) q(3)] q(5) by simp
    have ex1: "expected_shape s1 = expected"
      using expected_shape_extend [OF assms(1,2) q(3,5)] ex by simp
    have d1: "deref s1 (dfs_list s1) = ts"
      using deref_extend [OF assms(2) q(3)] q(5) assms(3) by simp
    from recursive_summary [OF ne1 v1] obtain r2 s2 ys2 where
      p: "join_dataframes_recursively s1 = (check_shape (frames s2 ! r2) expected r2, s2)"
         "r2 < length (frames s2)"
         "frames s2 = (frames s1 @ ys2)[r2 := sort_columns ((frames s1 @ ys2) ! r2)]"
         "[frames s2 ! r2] = map sort_columns (reduce_frames ts)"
         "if length (dfs_list s1) = 1 then r2 = hd (dfs_list s1) \<and> dfs_list s2 = dfs_list s1 \<and> ys2 = []
          else length (frames s1) \<le> r2 \<and> dfs_list s2 = []"
      unfolding ex1 d1 by - (elim exE conjE, rule that, assumption+)
    have f2: "frames s2 ! r2 = m2"
      using p(4) assms(6) by (cases "reduce_frames ts") auto
    show ?thesis
    proof (cases "shape m2 \<noteq> expected")
      case True
      then show ?thesis
        using False seq p(1) f2 by (simp add: concordance_test_def check_shape_def)
    next
      case ok: False
      then have rec: "join_dataframes_recursively s1 = (Inr r2, s2)"
        using p(1) f2 by (simp add: check_shape_def)
      have "frames s2 ! r1 = frames s2 ! r2 \<longleftrightarrow> m1 = m2"
      proof (cases "length (dfs_list s) = 1")
        case True
        then have r: "r1 = hd (dfs_list s)" "r2 = hd (dfs_list s)" "s1 = s"
          using q(5,6) p(5) by auto
        obtain x where x: "dfs_list s = [x]" using True by (cases "dfs_list s") auto
        then have t: "ts = [frames s ! x]" using assms(3) by (simp add: deref_def)
        have "length (columns (frames s ! x)) = 1"
          using False t assms(4,5) by (simp add: shape_def)
        then have "m1 = m2"
          using t assms(5,6) by (simp add: reduce_frames_single sort_columns_single)
        then show ?thesis using r by simp
      next
        case False
        then have "r1 < r2" using q(2,5) p(5) by simp
        then have "frames s2 ! r1 = frames s1 ! r1"
          using p(3) q(2) by (simp add: nth_append)
        then show ?thesis using q(4) f2 by simp
      qed
      then show ?thesis
        using False ok seq rec by (simp add: concordance_test_def assert_frame_equal_iff)
    qed
  qed
qed

subsection \<open>The cells of a merged table\<close>

lemma map_of_zip_map_option:
  "map_of (zip xs (map f ys)) c = map_option f (map_of (zip xs ys) c)"
proof (induction xs arbitrary: ys)
  case Nil
  then show ?case by simp
next
  case (Cons x xs)
  then show ?case by (cases ys) auto
qed

lemma lookup_in_cases:
  "lookup_in t U k c =
     (if U \<subseteq> set (index t) then lookup_in t (set (index t)) k c
      else map_option (map_option float64_of_int) (lookup_in t (set (index t)) k c))"
  by (simp add: lookup_in_def cells_in_def to_float64_def map_of_zip_map_option)

lemma float_exact_cells_in: "float_exact t \<Longrightarrow> cells_in t U k = cells t k"
proof (cases "map_of (rows t) k")
  case None
  then show ?thesis by (simp add: cells_in_def cells_def)
next
  case (Some cs)
  assume "float_exact t"
  moreover have "(k, cs) \<in> set (rows t)" using Some by (rule map_of_SomeD)
  ultimately have "to_float64 cs = cs" unfolding float_exact_def by fastforce
  then show ?thesis using Some by (simp add: cells_in_def cells_def)
qed

lemma float_exact_bounded:
  assumes "\<forall>row \<in> set (rows t). \<forall>n. Some n \<in> set (snd row) \<longrightarrow> \<bar>n\<bar> \<le> 2 ^ 53"
  shows "float_exact t"
  unfolding float_exact_def
proof
  fix row
  assume r: "row \<in> set (rows t)"
  have "map_option float64_of_int x = x" if "x \<in> set (snd row)" for x
  proof (cases x)
    case None
    then show ?thesis by simp
  next
    case (Some n)
    then have "\<bar>n\<bar> \<le> 2 ^ 53" using assms r that by blast
    then show ?thesis using Some by (simp add: float64_of_int_exact)
  qed
  then show "to_float64 (snd row) = snd row"
    unfolding to_float64_def by (intro map_idI)
qed

lemma content_merge_outer:
  assumes "keyed A" "keyed B" "set (columns A) \<inter> set (columns B) = {}"
    and "U = set (index A) \<union> set (index B)"
  shows "content (merge_outer A B) (k, c) =
           (if k \<in> U then
              if c \<in> set (columns A) then lookup_in A U k c else lookup_in B U k c
            else None)"
proof -
  have i: "set (index (merge_outer A B)) = U"
    using assms by (simp add: set_index_merge_outer)
  have s: "set (index A) \<union> set (index B) \<subseteq> U" using assms(4) by simp
  have na: "c \<notin> set (columns A) \<Longrightarrow> lookup_in A U k c = None"
    using assms(1) by (simp add: lookup_in_None_iff)
  have sa: "c \<in> set (columns A) \<Longrightarrow> \<exists>v. lookup_in A U k c = Some v"
    using assms(1) lookup_in_None_iff [of A U k c] by auto
  show ?thesis
    using sa na
    by (auto simp: content_lookup_in i lookup_in_merge_outer [OF assms(1-3) s] split: option.splits)
qed

lemma content_merge_outer_side:
  assumes "keyed A" "c \<in> set (columns A)"
  shows "lookup_in A U k c =
           (if k \<in> set (index A) then
              (if U \<subseteq> set (index A) then content A (k, c)
               else map_option (map_option float64_of_int) (content A (k, c)))
            else Some None)"
proof (cases "k \<in> set (index A)")
  case True
  then have "content A (k, c) = lookup_in A (set (index A)) k c" by (simp add: content_lookup_in)
  then show ?thesis using True lookup_in_cases [of A U k c] by simp
next
  case False
  then show ?thesis using assms(2) by (simp add: lookup_in_absent)
qed

lemma content_float_exact:
  assumes "float_exact A" "k \<in> set (index A)"
  shows "lookup_in A U k c = content A (k, c)"
  using assms by (simp add: content_lookup_in lookup_in_def float_exact_cells_in)

subsection \<open>The recursive reducer on two frames\<close>

lemma recursive_two_frames:
  "fst (join_dataframes_recursively (initial [a, b])) =
     check_shape (sort_columns (merge_outer a b)) (fst (shape a), 2) 2"
  "frames (snd (join_dataframes_recursively (initial [a, b]))) ! 2 = sort_columns (merge_outer a b)"
proof -
  let ?s = "initial [a, b]"
  let ?s1 = "?s\<lparr>pbar_total := num_iterations_loop (length (dfs_list ?s)) 0, pbar_n := 0\<rparr>"
  let ?s2 = "?s1\<lparr>dfs_list := [], frames := [a, b, merge_outer a b], merge_calls := 1, pbar_n := 1,
                  work_list := [2]\<rparr>"
  have ne: "dfs_list ?s \<noteq> []" by (simp add: initial_def)
  have i: "inner_loop Arg [] ?s1 =
             ([2], ?s1\<lparr>dfs_list := [], frames := [a, b, merge_outer a b], merge_calls := 1, pbar_n := 1\<rparr>)"
    by (simp add: inner_loop.simps [of Arg] initial_def merge_st_def pbar_update_def)
  have o: "outer_loop Arg ?s1 = (Work, ?s2)"
    by (simp add: outer_loop.simps [of Arg] outer_loop.simps [of Work] i) (simp add: initial_def)
  have c: "contents Work ?s2 = [2]" by simp
  note r = join_dataframes_recursively_result [OF ne o c]
  show "fst (join_dataframes_recursively (initial [a, b])) =
     check_shape (sort_columns (merge_outer a b)) (fst (shape a), 2) 2"
    unfolding r
    by (simp add: set_columns_def sort_columns_def expected_shape_def initial_def numeral_2_eq_2)
  show "frames (snd (join_dataframes_recursively (initial [a, b]))) ! 2 = sort_columns (merge_outer a b)"
    unfolding r by (simp add: set_columns_def sort_columns_def)
qed

lemma merge_outer_sample_A_D53:
  "merge_outer sample_A sample_D53 =
     \<lparr>columns = [''A'', ''D''],
      rows = [(''g1'', [Some 1, Some 9007199254740992]), (''g2'', [Some 2, None])]\<rparr>"
  by (simp add: merge_outer_def join_index_def rows_at_def add_suffix_def index_def
                sample_A_def sample_D53_def to_float64_def float64_of_int_def float64_of_nat_def
                round_half_even_def Let_def)

section \<open>Properties\<close>

subsection \<open>The two reducers\<close>

text \<open>
  C1. The files \<open>B\<close> and \<open>A\<close> have the same genes. Given \<open>B\<close> before \<open>A\<close>, both
  reducers return a table, and the tables differ in content: under (\<open>g1\<close>, \<open>A\<close>) the
  sequential reducer has 1 and the recursive reducer has 10.
\<close>

theorem reducers_differ_in_content:
  "set (index sample_B) = set (index sample_A) \<and>
   fst (join_dataframes_sequentially (initial [sample_B, sample_A])) = Inr 2 \<and>
   fst (join_dataframes_recursively (initial [sample_B, sample_A])) = Inr 2 \<and>
   content (frames (snd (join_dataframes_sequentially (initial [sample_B, sample_A]))) ! 2)
     (''g1'', ''A'') = Some (Some 1) \<and>
   content (frames (snd (join_dataframes_recursively (initial [sample_B, sample_A]))) ! 2)
     (''g1'', ''A'') = Some (Some 10)"
  by code_simp

subsection \<open>The column labels of the recursive reducer\<close>

text \<open>
  C2. \<open>result.columns = sorted(result.columns)\<close> gives the columns new labels and
  leaves the cells where they are. Given the file \<open>B\<close> before the file \<open>A\<close>, the
  recursive reducer returns a table whose labels are sorted, but whose column \<open>A\<close>
  holds the counts of \<open>B\<close>: the cell of (\<open>g1\<close>, \<open>A\<close>) is 10, the count of \<open>g1\<close> in
  \<open>B\<close>, where the file \<open>A\<close> has 1. Given \<open>A\<close> before \<open>B\<close>, the same labels stand
  over the other columns.
\<close>

theorem recursive_sort_relabels:
  "fst (join_dataframes_recursively (initial [sample_B, sample_A])) = Inr 2 \<and>
   frames (snd (join_dataframes_recursively (initial [sample_B, sample_A]))) ! 2 =
     \<lparr>columns = [''A'', ''B''],
      rows = [(''g1'', [Some 10, Some 1]), (''g2'', [Some 20, Some 2])]\<rparr> \<and>
   frames (snd (join_dataframes_recursively (initial [sample_A, sample_B]))) ! 2 =
     \<lparr>columns = [''A'', ''B''],
      rows = [(''g1'', [Some 1, Some 10]), (''g2'', [Some 2, Some 20])]\<rparr> \<and>
   content sample_A (''g1'', ''A'') = Some (Some 1) \<and>
   content (frames (snd (join_dataframes_recursively (initial [sample_B, sample_A]))) ! 2)
     (''g1'', ''A'') = Some (Some 10)"
  by code_simp

subsection \<open>The concordance test\<close>

text \<open>
  Against C3 as stated: the files \<open>B\<close> and \<open>A\<close> with the same
  counts, \<open>B\<close> first: the outputs of the two reducers have the same content,
  their columns are in different orders, and the concordance test raises the
  \<open>AssertionError\<close>.
\<close>

theorem concordance_test_counterexample:
  "fst (join_dataframes_sequentially (initial [sample_B, sample_A10])) = Inr 2 \<and>
   fst (join_dataframes_recursively (initial [sample_B, sample_A10])) = Inr 2 \<and>
   content (frames (snd (join_dataframes_sequentially (initial [sample_B, sample_A10]))) ! 2) =
   content (frames (snd (join_dataframes_recursively (initial [sample_B, sample_A10]))) ! 2) \<and>
   fst (concordance_test (initial [sample_B, sample_A10])) = Inl AssertionError"
proof -
  have s: "frames (snd (join_dataframes_sequentially (initial [sample_B, sample_A10]))) ! 2 =
           \<lparr>columns = [''B'', ''A''],
            rows = [(''g1'', [Some 10, Some 10]), (''g2'', [Some 20, Some 20])]\<rparr>"
    by code_simp
  have r: "frames (snd (join_dataframes_recursively (initial [sample_B, sample_A10]))) ! 2 =
           \<lparr>columns = [''A'', ''B''],
            rows = [(''g1'', [Some 10, Some 10]), (''g2'', [Some 20, Some 20])]\<rparr>"
    by code_simp
  have c: "content \<lparr>columns = [''B'', ''A''],
            rows = [(''g1'', [Some (10::int), Some 10]), (''g2'', [Some 20, Some 20])]\<rparr> =
           content \<lparr>columns = [''A'', ''B''],
            rows = [(''g1'', [Some 10, Some 10]), (''g2'', [Some 20, Some 20])]\<rparr>"
    by (rule ext) (auto simp: content_def)
  have "fst (join_dataframes_sequentially (initial [sample_B, sample_A10])) = Inr 2"
    "fst (join_dataframes_recursively (initial [sample_B, sample_A10])) = Inr 2"
    "fst (concordance_test (initial [sample_B, sample_A10])) = Inl AssertionError"
    by code_simp+
  then show ?thesis using s r c by simp
qed

text \<open>
  C3, as the code has it. For a nonempty list the concordance test raises the error of
  the shape check of the sequential reducer, else that of the recursive reducer, and
  else compares the two tables as \<open>assert_frame_equal\<close> does: it raises the
  \<open>AssertionError\<close> exactly when they differ in the index labels in order, in the
  column labels in order, or in a cell. On keyed tables with one column each and the
  same keys, given in strictly ascending order of their sample names, it completes with
  no error; the instance that follows has five such tables.
\<close>

theorem concordance_test_exact:
  assumes "dfs_list s \<noteq> []" "valid_refs (dfs_list s) s"
    and "ts = deref s (dfs_list s)"
    and "expected = (fst (shape (hd ts)), length ts)"
    and "m1 = foldl merge_outer (hd ts) (tl ts)"
    and "m2 = sort_columns (hd (reduce_frames ts))"
  shows "fst (concordance_test s) =
           (if shape m1 \<noteq> expected then Inl (raise_error (Output_matrix_shape (shape m1) expected))
            else if shape m2 \<noteq> expected then Inl (raise_error (Output_matrix_shape (shape m2) expected))
            else if index m1 = index m2 \<and> columns m1 = columns m2 \<and>
                    map snd (rows m1) = map snd (rows m2)
                 then Inr () else Inl AssertionError) \<and>
         ((\<forall>t \<in> set ts. keyed t \<and> length (columns t) = 1 \<and> set (index t) = set (index (hd ts))) \<and>
          sorted (concat (map columns ts)) \<and> distinct (concat (map columns ts)) \<longrightarrow>
            fst (concordance_test s) = Inr ())"
proof -
  have eq: "m1 = m2 \<longleftrightarrow> index m1 = index m2 \<and> columns m1 = columns m2 \<and>
                    map snd (rows m1) = map snd (rows m2)"
    using assert_frame_equal_iff [of m1 m2] map_eq_imp_length_eq [of snd "rows m1" snd "rows m2"]
    by (auto simp: assert_frame_equal_def shape_def)
  note f = concordance_test_result [OF assms]
  have one: "fst (concordance_test s) =
           (if shape m1 \<noteq> expected then Inl (raise_error (Output_matrix_shape (shape m1) expected))
            else if shape m2 \<noteq> expected then Inl (raise_error (Output_matrix_shape (shape m2) expected))
            else if index m1 = index m2 \<and> columns m1 = columns m2 \<and>
                    map snd (rows m1) = map snd (rows m2)
                 then Inr () else Inl AssertionError)"
    using f eq by simp
  have two: "fst (concordance_test s) = Inr ()"
    if a: "\<forall>t \<in> set ts. keyed t \<and> length (columns t) = 1 \<and> set (index t) = set (index (hd ts))"
      and b: "sorted (concat (map columns ts))" "distinct (concat (map columns ts))"
  proof -
    have ne: "ts \<noteq> []" using assms(1,3) by (simp add: deref_def)
    have k: "\<forall>t \<in> set ts. keyed t" and c: "\<forall>t \<in> set ts. length (columns t) = 1"
      and i: "\<forall>t \<in> set ts. set (index t) \<subseteq> set (index (hd ts))"
      and kc: "\<forall>t \<in> set ts. keyed t \<and> length (columns t) = 1"
      using a by auto
    have e: "m1 = m2" using reducers_agree [OF ne kc b] assms(5,6) by simp
    have "merged_of m1 ts" using merged_of_sequential [OF ne k] assms(5) by simp
    then have "shape m1 = expected" using shape_check_merged_of(2) [OF _ i c] assms(4) by simp
    then show ?thesis using f e by simp
  qed
  show ?thesis using one two by blast
qed

theorem concordance_test_exact_witness:
  "dfs_list (initial [sample_A, sample_B, sample_C, sample_F, sample_G]) \<noteq> [] \<and>
   valid_refs (dfs_list (initial [sample_A, sample_B, sample_C, sample_F, sample_G]))
     (initial [sample_A, sample_B, sample_C, sample_F, sample_G]) \<and>
   list_all (\<lambda>t. keyed t \<and> length (columns t) = 1 \<and>
      set (index t) = set (index (hd [sample_A, sample_B, sample_C, sample_F, sample_G])))
     [sample_A, sample_B, sample_C, sample_F, sample_G] \<and>
   sorted (concat (map columns [sample_A, sample_B, sample_C, sample_F, sample_G])) \<and>
   distinct (concat (map columns [sample_A, sample_B, sample_C, sample_F, sample_G])) \<and>
   fst (concordance_test (initial [sample_A, sample_B, sample_C, sample_F, sample_G])) = Inr ()"
proof -
  let ?ts = "[sample_A, sample_B, sample_C, sample_F, sample_G]"
  let ?s = "initial ?ts"
  have h1: "dfs_list ?s \<noteq> []" by (simp add: initial_def)
  have h2: "valid_refs (dfs_list ?s) ?s" by (simp add: initial_def valid_refs_def)
  have h3: "?ts = deref ?s (dfs_list ?s)" by (simp add: initial_def deref_def)
  have a: "\<forall>t \<in> set ?ts. keyed t \<and> length (columns t) = 1 \<and> set (index t) = set (index (hd ?ts))"
    by (simp add: keyed_def index_def sample_A_def sample_B_def sample_C_def sample_F_def
                  sample_G_def)
  have b: "sorted (concat (map columns ?ts))" "distinct (concat (map columns ?ts))"
    by (simp_all add: sample_A_def sample_B_def sample_C_def sample_F_def sample_G_def)
  note t = concordance_test_exact [OF h1 h2 h3 refl refl refl]
  have a': "list_all (\<lambda>t. keyed t \<and> length (columns t) = 1 \<and> set (index t) = set (index (hd ?ts))) ?ts"
    using a by (simp add: list_all_iff)
  have "fst (concordance_test ?s) = Inr ()" using t a b by blast
  then show ?thesis using h1 h2 a' b by blast
qed

subsection \<open>What the reducers change\<close>

text \<open>
  Against C4 as stated: the recursive reducer pops from the list it is given: after it has
  run on two tables the list of the caller is empty. On a single table both reducers
  return that table itself, not a new one.
\<close>

theorem reducers_effect_counterexample:
  "dfs_list (initial [sample_A, sample_B]) = [0, 1] \<and>
   dfs_list (snd (join_dataframes_recursively (initial [sample_A, sample_B]))) = [] \<and>
   dfs_list (initial [sample_A]) = [0] \<and>
   fst (join_dataframes_recursively (initial [sample_A])) = Inr 0 \<and>
   fst (join_dataframes_sequentially (initial [sample_A])) = Inr 0"
  by code_simp

text \<open>
  C4, as the code has it. The input tables are frames as the loader reads them, with one
  column each. Neither reducer changes a frame that existed before the call, and a merge
  step allocates its result and changes no existing frame. The sequential reducer
  leaves the list of the caller as it was; the recursive reducer leaves it empty when it
  held two tables or more. A returned result is a newly allocated frame when there are
  two input tables or more, and the input table itself when there is one.
\<close>

theorem reducers_effect:
  assumes "valid_refs (dfs_list s) s"
    and "\<forall>r \<in> set (dfs_list s). length (columns (frames s ! r)) = 1"
  shows "(\<forall>r < length (frames s). frames (snd (join_dataframes_sequentially s)) ! r = frames s ! r) \<and>
         (\<forall>r < length (frames s). frames (snd (join_dataframes_recursively s)) ! r = frames s ! r) \<and>
         dfs_list (snd (join_dataframes_sequentially s)) = dfs_list s \<and>
         dfs_list (snd (join_dataframes_recursively s)) =
           (if length (dfs_list s) \<ge> 2 then [] else dfs_list s) \<and>
         (\<forall>r. fst (join_dataframes_sequentially s) = Inr r \<longrightarrow>
              (if length (dfs_list s) \<ge> 2
               then length (frames s) \<le> r \<and> r < length (frames (snd (join_dataframes_sequentially s)))
               else r = dfs_list s ! 0)) \<and>
         (\<forall>r. fst (join_dataframes_recursively s) = Inr r \<longrightarrow>
              (if length (dfs_list s) \<ge> 2
               then length (frames s) \<le> r \<and> r < length (frames (snd (join_dataframes_recursively s)))
               else r = dfs_list s ! 0)) \<and>
         fst (merge_st one two s) = length (frames s) \<and>
         (\<forall>r < length (frames s). frames (snd (merge_st one two s)) ! r = frames s ! r)"
proof (cases "dfs_list s = []")
  case True
  then show ?thesis
    by (simp add: join_dataframes_sequentially_def join_dataframes_recursively_def merge_st_def
                  nth_append)
next
  case False
  have hd0: "hd (dfs_list s) = dfs_list s ! 0" using False by (simp add: hd_conv_nth)
  have len: "length (dfs_list s) = 1 \<or> length (dfs_list s) \<ge> 2"
    using False by (cases "dfs_list s"; cases "tl (dfs_list s)") auto
  from sequential_summary [OF False assms(1)] obtain r1 s1 where
    q: "join_dataframes_sequentially s = (check_shape (frames s1 ! r1) (expected_shape s) r1, s1)"
       "r1 < length (frames s1)" "\<exists>ys. frames s1 = frames s @ ys" "dfs_list s1 = dfs_list s"
       "if length (dfs_list s) = 1 then r1 = hd (dfs_list s) \<and> s1 = s else length (frames s) \<le> r1"
    by blast
  from recursive_summary [OF False assms(1)] obtain r2 s2 ys where
    p: "join_dataframes_recursively s = (check_shape (frames s2 ! r2) (expected_shape s) r2, s2)"
       "r2 < length (frames s2)"
       "frames s2 = (frames s @ ys)[r2 := sort_columns ((frames s @ ys) ! r2)]"
       "if length (dfs_list s) = 1 then r2 = hd (dfs_list s) \<and> dfs_list s2 = dfs_list s \<and> ys = []
        else length (frames s) \<le> r2 \<and> dfs_list s2 = []"
    by blast
  have a: "\<forall>r < length (frames s). frames s1 ! r = frames s ! r"
    using q(3) by (auto simp: nth_append)
  have b: "\<forall>r < length (frames s). frames s2 ! r = frames s ! r"
  proof (cases "length (dfs_list s) = 1")
    case True
    then have r2: "r2 = hd (dfs_list s)" "ys = []" using p(4) by auto
    then have "r2 \<in> set (dfs_list s)" using False by simp
    then have "sort_columns (frames s ! r2) = frames s ! r2"
      using assms(2) by (simp add: sort_columns_single)
    then show ?thesis using p(3) r2 by simp
  next
    case False
    then have "length (frames s) \<le> r2" using p(4) by simp
    then show ?thesis using p(3) by (auto simp: nth_append)
  qed
  have c: "dfs_list s2 = (if length (dfs_list s) \<ge> 2 then [] else dfs_list s)"
    using p(4) len by (auto split: if_splits)
  have d: "\<forall>r. fst (join_dataframes_sequentially s) = Inr r \<longrightarrow>
              (if length (dfs_list s) \<ge> 2
               then length (frames s) \<le> r \<and> r < length (frames (snd (join_dataframes_sequentially s)))
               else r = dfs_list s ! 0)"
    using q len hd0 by (auto simp: check_shape_def split: if_splits)
  have e: "\<forall>r. fst (join_dataframes_recursively s) = Inr r \<longrightarrow>
              (if length (dfs_list s) \<ge> 2
               then length (frames s) \<le> r \<and> r < length (frames (snd (join_dataframes_recursively s)))
               else r = dfs_list s ! 0)"
    using p len hd0 by (auto simp: check_shape_def split: if_splits)
  have f: "fst (merge_st one two s) = length (frames s) \<and>
         (\<forall>r < length (frames s). frames (snd (merge_st one two s)) ! r = frames s ! r)"
    by (simp add: merge_st_def nth_append)
  show ?thesis using a b c d e f q(1) q(4) p(1) by simp
qed

theorem reducers_effect_witness:
  "valid_refs (dfs_list (initial [sample_A, sample_B])) (initial [sample_A, sample_B]) \<and>
   list_all (\<lambda>r. length (columns (frames (initial [sample_A, sample_B]) ! r)) = 1)
     (dfs_list (initial [sample_A, sample_B])) \<and>
   frames (snd (join_dataframes_sequentially (initial [sample_A, sample_B]))) ! 0 = sample_A \<and>
   frames (snd (join_dataframes_sequentially (initial [sample_A, sample_B]))) ! 1 = sample_B \<and>
   frames (snd (join_dataframes_recursively (initial [sample_A, sample_B]))) ! 0 = sample_A \<and>
   frames (snd (join_dataframes_recursively (initial [sample_A, sample_B]))) ! 1 = sample_B \<and>
   dfs_list (snd (join_dataframes_sequentially (initial [sample_A, sample_B]))) = [0, 1] \<and>
   dfs_list (snd (join_dataframes_recursively (initial [sample_A, sample_B]))) = [] \<and>
   length (frames (initial [sample_A, sample_B])) = 2 \<and>
   fst (join_dataframes_sequentially (initial [sample_A, sample_B])) = Inr 2 \<and>
   fst (join_dataframes_recursively (initial [sample_A, sample_B])) = Inr 2"
proof -
  let ?s = "initial [sample_A, sample_B]"
  have h1: "valid_refs (dfs_list ?s) ?s"
    by (simp add: initial_def valid_refs_def)
  have h2: "\<forall>r \<in> set (dfs_list ?s). length (columns (frames ?s ! r)) = 1"
    by (simp add: initial_def sample_A_def sample_B_def)
  have l: "length (frames ?s) = 2" "dfs_list ?s = [0, 1]"
    "frames ?s ! 0 = sample_A" "frames ?s ! 1 = sample_B"
    by (simp_all add: initial_def)
  note t = reducers_effect [OF h1 h2, of 0 1]
  have "frames (snd (join_dataframes_sequentially ?s)) ! 0 = frames ?s ! 0"
       "frames (snd (join_dataframes_sequentially ?s)) ! 1 = frames ?s ! 1"
       "frames (snd (join_dataframes_recursively ?s)) ! 0 = frames ?s ! 0"
       "frames (snd (join_dataframes_recursively ?s)) ! 1 = frames ?s ! 1"
       "dfs_list (snd (join_dataframes_sequentially ?s)) = dfs_list ?s"
       "dfs_list (snd (join_dataframes_recursively ?s)) = []"
    using t l(1,2) by simp_all
  moreover have "fst (join_dataframes_sequentially ?s) = Inr 2"
    "fst (join_dataframes_recursively ?s) = Inr 2"
    by code_simp+
  ultimately show ?thesis using h1 h2 l by (simp add: list_all_iff)
qed

subsection \<open>The shape check\<close>

text \<open>
  Against C5 as stated: the second table lacks a gene of the first one: the merged table
  has the rows of the first table and two columns, and both reducers return it.
\<close>

theorem shape_mismatch_counterexample:
  "''g2'' \<in> set (index sample_A) \<and> ''g2'' \<notin> set (index sample_D) \<and>
   fst (join_dataframes_sequentially (initial [sample_A, sample_D])) = Inr 2 \<and>
   fst (join_dataframes_recursively (initial [sample_A, sample_D])) = Inr 2"
  by code_simp

text \<open>
  C5, as the code has it. For a nonempty list each reducer raises the \<open>RuntimeError\<close>
  that carries the actual and the expected shape exactly when the shape of the merged
  table differs from (rows of the first table, number of tables), and returns the table
  otherwise. On keyed tables, when some table has a key that the first table lacks,
  both reducers raise this error; when the tables have one column each and no key that
  the first table lacks, both return a table.
\<close>

theorem shape_mismatch:
  assumes "dfs_list s \<noteq> []" "valid_refs (dfs_list s) s"
    and "ts = deref s (dfs_list s)"
    and "expected = (fst (shape (hd ts)), length ts)"
  shows "(\<exists>r. frames (snd (join_dataframes_sequentially s)) ! r = foldl merge_outer (hd ts) (tl ts) \<and>
              fst (join_dataframes_sequentially s) =
                (if shape (foldl merge_outer (hd ts) (tl ts)) \<noteq> expected
                 then Inl (raise_error
                        (Output_matrix_shape (shape (foldl merge_outer (hd ts) (tl ts))) expected))
                 else Inr r)) \<and>
         (\<exists>r. [frames (snd (join_dataframes_recursively s)) ! r] =
                 map sort_columns (reduce_frames ts) \<and>
              fst (join_dataframes_recursively s) =
                (if shape (frames (snd (join_dataframes_recursively s)) ! r) \<noteq> expected
                 then Inl (raise_error
                        (Output_matrix_shape
                           (shape (frames (snd (join_dataframes_recursively s)) ! r)) expected))
                 else Inr r)) \<and>
         ((\<forall>t \<in> set ts. keyed t) \<and> (\<exists>t \<in> set ts. \<not> set (index t) \<subseteq> set (index (hd ts))) \<longrightarrow>
            (\<exists>actual. fst (join_dataframes_sequentially s) =
                        Inl (raise_error (Output_matrix_shape actual expected))) \<and>
            (\<exists>actual. fst (join_dataframes_recursively s) =
                        Inl (raise_error (Output_matrix_shape actual expected)))) \<and>
         ((\<forall>t \<in> set ts. keyed t \<and> length (columns t) = 1 \<and> set (index t) \<subseteq> set (index (hd ts))) \<longrightarrow>
            (\<exists>r. fst (join_dataframes_sequentially s) = Inr r) \<and>
            (\<exists>r. fst (join_dataframes_recursively s) = Inr r))"
proof -
  have ex: "expected_shape s = expected"
    using assms by (simp add: expected_shape_deref)
  from sequential_summary [OF assms(1,2)] obtain r1 s1 where
    q: "join_dataframes_sequentially s = (check_shape (frames s1 ! r1) expected r1, s1)"
       "frames s1 ! r1 = foldl merge_outer (hd ts) (tl ts)"
    unfolding ex assms(3) [symmetric] by blast
  from recursive_summary [OF assms(1,2)] obtain r2 s2 where
    p: "join_dataframes_recursively s = (check_shape (frames s2 ! r2) expected r2, s2)"
       "[frames s2 ! r2] = map sort_columns (reduce_frames ts)"
    unfolding ex assms(3) [symmetric] by - (elim exE conjE, rule that, assumption+)
  have one: "\<exists>r. frames (snd (join_dataframes_sequentially s)) ! r = foldl merge_outer (hd ts) (tl ts) \<and>
              fst (join_dataframes_sequentially s) =
                (if shape (foldl merge_outer (hd ts) (tl ts)) \<noteq> expected
                 then Inl (raise_error
                        (Output_matrix_shape (shape (foldl merge_outer (hd ts) (tl ts))) expected))
                 else Inr r)"
    using q by (intro exI [of _ r1]) (simp add: check_shape_def)
  have two: "\<exists>r. [frames (snd (join_dataframes_recursively s)) ! r] =
                 map sort_columns (reduce_frames ts) \<and>
              fst (join_dataframes_recursively s) =
                (if shape (frames (snd (join_dataframes_recursively s)) ! r) \<noteq> expected
                 then Inl (raise_error
                        (Output_matrix_shape
                           (shape (frames (snd (join_dataframes_recursively s)) ! r)) expected))
                 else Inr r)"
    using p by (intro exI [of _ r2]) (simp add: check_shape_def)
  have ne: "ts \<noteq> []" using assms(1,3) by (simp add: deref_def)
  have m: "merged_of (frames s1 ! r1) ts \<and> (\<exists>m. frames s2 ! r2 = sort_columns m \<and> merged_of m ts)"
    if k: "\<forall>t \<in> set ts. keyed t"
  proof -
    have "merged_of (frames s1 ! r1) ts"
      using merged_of_sequential [OF ne k] q(2) by simp
    moreover from merged_of_reduce_frames_inputs [OF ne k] obtain m where
      "reduce_frames ts = [m]" "merged_of m ts" by blast
    moreover from this have "frames s2 ! r2 = sort_columns m" using p(2) by simp
    ultimately show ?thesis by blast
  qed
  have three: "(\<exists>actual. fst (join_dataframes_sequentially s) =
                        Inl (raise_error (Output_matrix_shape actual expected))) \<and>
            (\<exists>actual. fst (join_dataframes_recursively s) =
                        Inl (raise_error (Output_matrix_shape actual expected)))"
    if k: "\<forall>t \<in> set ts. keyed t" and a: "\<exists>t \<in> set ts. \<not> set (index t) \<subseteq> set (index (hd ts))"
  proof -
    from m [OF k] obtain m2 where m2: "merged_of (frames s1 ! r1) ts"
      "frames s2 ! r2 = sort_columns m2" "merged_of m2 ts" by blast
    have "fst (shape (frames s1 ! r1)) \<noteq> fst expected" "fst (shape (frames s2 ! r2)) \<noteq> fst expected"
      using shape_check_merged_of(1) [OF m2(1) a] shape_check_merged_of(1) [OF m2(3) a] m2(2) assms(4)
      by simp_all
    then have ne: "shape (frames s1 ! r1) \<noteq> expected" "shape (frames s2 ! r2) \<noteq> expected"
      by auto
    have "fst (join_dataframes_sequentially s) =
            Inl (raise_error (Output_matrix_shape (shape (frames s1 ! r1)) expected))"
      using q(1) ne(1) by (simp add: check_shape_def)
    moreover have "fst (join_dataframes_recursively s) =
            Inl (raise_error (Output_matrix_shape (shape (frames s2 ! r2)) expected))"
      using p(1) ne(2) by (simp add: check_shape_def)
    ultimately show ?thesis by blast
  qed
  have four: "(\<exists>r. fst (join_dataframes_sequentially s) = Inr r) \<and>
            (\<exists>r. fst (join_dataframes_recursively s) = Inr r)"
    if a: "\<forall>t \<in> set ts. keyed t \<and> length (columns t) = 1 \<and> set (index t) \<subseteq> set (index (hd ts))"
  proof -
    have k: "\<forall>t \<in> set ts. keyed t" and c: "\<forall>t \<in> set ts. length (columns t) = 1"
      and i: "\<forall>t \<in> set ts. set (index t) \<subseteq> set (index (hd ts))"
      using a by auto
    from m [OF k] obtain m2 where m2: "merged_of (frames s1 ! r1) ts"
      "frames s2 ! r2 = sort_columns m2" "merged_of m2 ts" by blast
    have "shape (frames s1 ! r1) = expected" "shape (frames s2 ! r2) = expected"
      using shape_check_merged_of(2) [OF m2(1) i c] shape_check_merged_of(2) [OF m2(3) i c] m2(2) assms(4)
      by simp_all
    then show ?thesis using q(1) p(1) by (simp add: check_shape_def)
  qed
  show ?thesis using one two three four by blast
qed

theorem shape_mismatch_witness:
  "dfs_list (initial [sample_A, sample_E]) \<noteq> [] \<and>
   valid_refs (dfs_list (initial [sample_A, sample_E])) (initial [sample_A, sample_E]) \<and>
   list_all keyed [sample_A, sample_E] \<and>
   (\<exists>t \<in> set [sample_A, sample_E]. \<not> set (index t) \<subseteq> set (index (hd [sample_A, sample_E]))) \<and>
   (\<exists>actual. fst (join_dataframes_sequentially (initial [sample_A, sample_E])) =
               Inl (raise_error (Output_matrix_shape actual (2, 2)))) \<and>
   (\<exists>actual. fst (join_dataframes_recursively (initial [sample_A, sample_E])) =
               Inl (raise_error (Output_matrix_shape actual (2, 2)))) \<and>
   dfs_list (initial [sample_A, sample_B]) \<noteq> [] \<and>
   valid_refs (dfs_list (initial [sample_A, sample_B])) (initial [sample_A, sample_B]) \<and>
   list_all (\<lambda>t. keyed t \<and> length (columns t) = 1 \<and>
                  set (index t) \<subseteq> set (index (hd [sample_A, sample_B])))
     [sample_A, sample_B] \<and>
   (\<exists>r. fst (join_dataframes_sequentially (initial [sample_A, sample_B])) = Inr r) \<and>
   (\<exists>r. fst (join_dataframes_recursively (initial [sample_A, sample_B])) = Inr r)"
proof -
  let ?s = "initial [sample_A, sample_E]"
  let ?s' = "initial [sample_A, sample_B]"
  have h1: "dfs_list ?s \<noteq> []" "dfs_list ?s' \<noteq> []" by (simp_all add: initial_def)
  have h2: "valid_refs (dfs_list ?s) ?s" "valid_refs (dfs_list ?s') ?s'"
    by (simp_all add: initial_def valid_refs_def)
  have h3: "[sample_A, sample_E] = deref ?s (dfs_list ?s)"
    "[sample_A, sample_B] = deref ?s' (dfs_list ?s')"
    by (simp_all add: initial_def deref_def)
  have h4: "(2, 2) = (fst (shape (hd [sample_A, sample_E])), length [sample_A, sample_E])"
    "(2, 2) = (fst (shape (hd [sample_A, sample_B])), length [sample_A, sample_B])"
    by (simp_all add: shape_def sample_A_def)
  have k: "\<forall>t \<in> set [sample_A, sample_E]. keyed t"
    by (simp add: keyed_def index_def sample_A_def sample_E_def)
  have a: "\<exists>t \<in> set [sample_A, sample_E]. \<not> set (index t) \<subseteq> set (index (hd [sample_A, sample_E]))"
    by (simp add: index_def sample_A_def sample_E_def)
  have b: "\<forall>t \<in> set [sample_A, sample_B].
       keyed t \<and> length (columns t) = 1 \<and> set (index t) \<subseteq> set (index (hd [sample_A, sample_B]))"
    by (simp add: keyed_def index_def sample_A_def sample_B_def)
  note t1 = shape_mismatch [OF h1(1) h2(1) h3(1) h4(1)]
  note t2 = shape_mismatch [OF h1(2) h2(2) h3(2) h4(2)]
  have c1: "(\<exists>actual. fst (join_dataframes_sequentially ?s) =
               Inl (raise_error (Output_matrix_shape actual (2, 2)))) \<and>
            (\<exists>actual. fst (join_dataframes_recursively ?s) =
               Inl (raise_error (Output_matrix_shape actual (2, 2))))"
    using t1 k a by blast
  have c2: "(\<exists>r. fst (join_dataframes_sequentially ?s') = Inr r) \<and>
            (\<exists>r. fst (join_dataframes_recursively ?s') = Inr r)"
    using t2 b by blast
  have k': "list_all keyed [sample_A, sample_E]" using k by (simp add: list_all_iff)
  have b': "list_all (\<lambda>t. keyed t \<and> length (columns t) = 1 \<and>
                  set (index t) \<subseteq> set (index (hd [sample_A, sample_B])))
     [sample_A, sample_B]" using b by (simp add: list_all_iff)
  show ?thesis using h1 h2 k' a b' c1 c2 by blast
qed

subsection \<open>The outer join: the merged table\<close>

text \<open>
  Against C6 as stated. Two tables with the same column label: the merged table has the
  labels \<open>A_x\<close> and \<open>A_y\<close>, so its column set is not the union of the column sets. And
  a table with the count \<open>2 ^ 53 + 1\<close> that lacks a key of the other table: its column
  is converted to \<open>float64\<close>, and the merged cell holds \<open>2 ^ 53\<close>, not the value of the
  originating table.
\<close>

theorem merge_outer_contract_counterexample:
  "columns (merge_outer sample_A sample_A') = [''A_x'', ''A_y''] \<and>
   set (columns (merge_outer sample_A sample_A')) \<noteq>
     set (columns sample_A) \<union> set (columns sample_A') \<and>
   content sample_D53 (''g1'', ''D'') = Some (Some 9007199254740993) \<and>
   content (merge_outer sample_A sample_D53) (''g1'', ''D'') = Some (Some 9007199254740992)"
proof -
  have "columns (merge_outer sample_A sample_A') = [''A_x'', ''A_y'']"
    "set (columns (merge_outer sample_A sample_A')) \<noteq>
       set (columns sample_A) \<union> set (columns sample_A')"
    by (simp_all add: merge_outer_def sample_A_def sample_A'_def add_suffix_def)
  moreover have "content sample_D53 (''g1'', ''D'') = Some (Some 9007199254740993)"
    by (simp add: content_def sample_D53_def)
  moreover have "content (merge_outer sample_A sample_D53) (''g1'', ''D'') =
                   Some (Some 9007199254740992)"
    unfolding merge_outer_sample_A_D53 by (simp add: content_def)
  ultimately show ?thesis by (intro conjI)
qed

text \<open>
  C6, as the code has it. For two keyed tables whose column labels are disjoint, the
  outer join is a keyed table whose key set is the union of the key sets, whose column
  set is the union of the column sets, with one row per key. Its cell at (key, column)
  is missing when the table the column comes from lacks the key; otherwise it is the
  cell of that table, converted to \<open>float64\<close> when that table lacks a key of the other
  table. So when no count of the two tables exceeds \<open>2 ^ 53\<close> in magnitude, the cell is
  the cell of the table the column comes from when that table has the key, and missing
  otherwise. The instances that follow are the tables with the keys \<open>g1\<close>, \<open>g2\<close> and
  \<open>g2\<close>, \<open>g3\<close>, and a table with the count \<open>2 ^ 53 + 1\<close>.
\<close>

theorem merge_outer_contract:
  assumes "keyed A" "keyed B" "set (columns A) \<inter> set (columns B) = {}"
  shows "keyed (merge_outer A B) \<and>
         set (index (merge_outer A B)) = set (index A) \<union> set (index B) \<and>
         set (columns (merge_outer A B)) = set (columns A) \<union> set (columns B) \<and>
         shape (merge_outer A B) =
           (card (set (index A) \<union> set (index B)), length (columns A) + length (columns B)) \<and>
         (\<forall>k c. content (merge_outer A B) (k, c) =
            (if k \<in> set (index A) \<union> set (index B) then
               if c \<in> set (columns A) then
                 (if k \<in> set (index A) then
                    (if set (index B) \<subseteq> set (index A) then content A (k, c)
                     else map_option (map_option float64_of_int) (content A (k, c)))
                  else Some None)
               else if c \<in> set (columns B) then
                 (if k \<in> set (index B) then
                    (if set (index A) \<subseteq> set (index B) then content B (k, c)
                     else map_option (map_option float64_of_int) (content B (k, c)))
                  else Some None)
               else None
             else None)) \<and>
         ((\<forall>row \<in> set (rows A) \<union> set (rows B). \<forall>n. Some n \<in> set (snd row) \<longrightarrow> \<bar>n\<bar> \<le> 2 ^ 53) \<longrightarrow>
          (\<forall>k c. content (merge_outer A B) (k, c) =
            (if k \<in> set (index A) \<union> set (index B) then
               if c \<in> set (columns A) then
                 (if k \<in> set (index A) then content A (k, c) else Some None)
               else if c \<in> set (columns B) then
                 (if k \<in> set (index B) then content B (k, c) else Some None)
               else None
             else None)))"
proof -
  define U where "U = set (index A) \<union> set (index B)"
  have k: "keyed (merge_outer A B)" using assms by (simp add: keyed_merge_outer)
  have i: "set (index (merge_outer A B)) = set (index A) \<union> set (index B)"
    using assms by (simp add: set_index_merge_outer)
  have c: "set (columns (merge_outer A B)) = set (columns A) \<union> set (columns B)"
    using assms by (simp add: columns_merge_outer)
  have "length (rows (merge_outer A B)) = length (index (merge_outer A B))"
    by (simp add: index_def)
  also have "\<dots> = card (set (index (merge_outer A B)))"
    using k by (simp add: keyed_def distinct_card)
  finally have s: "shape (merge_outer A B) =
           (card (set (index A) \<union> set (index B)), length (columns A) + length (columns B))"
    using i by (simp add: shape_def length_columns_merge_outer)
  have ua: "U \<subseteq> set (index A) \<longleftrightarrow> set (index B) \<subseteq> set (index A)"
    and ub: "U \<subseteq> set (index B) \<longleftrightarrow> set (index A) \<subseteq> set (index B)"
    by (auto simp: U_def)
  have nb: "c \<notin> set (columns B) \<Longrightarrow> lookup_in B U k c = None" for k c
    using assms(2) by (simp add: lookup_in_None_iff)
  have v: "content (merge_outer A B) (k, c) =
            (if k \<in> set (index A) \<union> set (index B) then
               if c \<in> set (columns A) then
                 (if k \<in> set (index A) then
                    (if set (index B) \<subseteq> set (index A) then content A (k, c)
                     else map_option (map_option float64_of_int) (content A (k, c)))
                  else Some None)
               else if c \<in> set (columns B) then
                 (if k \<in> set (index B) then
                    (if set (index A) \<subseteq> set (index B) then content B (k, c)
                     else map_option (map_option float64_of_int) (content B (k, c)))
                  else Some None)
               else None
             else None)" for k c
    unfolding content_merge_outer [OF assms U_def] U_def [symmetric]
    using content_merge_outer_side [OF assms(1), of c U k]
      content_merge_outer_side [OF assms(2), of c U k] nb [of c k]
    by (simp add: ua ub)
  have e: "content (merge_outer A B) (k, c) =
            (if k \<in> set (index A) \<union> set (index B) then
               if c \<in> set (columns A) then
                 (if k \<in> set (index A) then content A (k, c) else Some None)
               else if c \<in> set (columns B) then
                 (if k \<in> set (index B) then content B (k, c) else Some None)
               else None
             else None)"
    if b: "\<forall>row \<in> set (rows A) \<union> set (rows B). \<forall>n. Some n \<in> set (snd row) \<longrightarrow> \<bar>n\<bar> \<le> 2 ^ 53"
    for k c
  proof -
    have fa: "float_exact A" using b by (intro float_exact_bounded) blast
    have fb: "float_exact B" using b by (intro float_exact_bounded) blast
    have la: "lookup_in A U k c = (if k \<in> set (index A) then content A (k, c) else Some None)"
      if "c \<in> set (columns A)"
      using that content_float_exact [OF fa, of k U c] lookup_in_absent [of k A c U] by simp
    have lb: "lookup_in B U k c = (if k \<in> set (index B) then content B (k, c) else Some None)"
      if "c \<in> set (columns B)"
      using that content_float_exact [OF fb, of k U c] lookup_in_absent [of k B c U] by simp
    show ?thesis
      unfolding content_merge_outer [OF assms U_def] U_def [symmetric]
      using la lb nb [of c k] by simp
  qed
  show ?thesis using k i c s v e by blast
qed

theorem merge_outer_contract_witness:
  "keyed sample_A \<and> keyed sample_E \<and> set (columns sample_A) \<inter> set (columns sample_E) = {} \<and>
   list_all (\<lambda>row. list_all (\<lambda>v. case v of None \<Rightarrow> True | Some n \<Rightarrow> \<bar>n\<bar> \<le> 2 ^ 53) (snd row))
     (rows sample_A @ rows sample_E) \<and>
   set (index (merge_outer sample_A sample_E)) = {''g1'', ''g2'', ''g3''} \<and>
   set (columns (merge_outer sample_A sample_E)) = {''A'', ''E''} \<and>
   shape (merge_outer sample_A sample_E) = (3, 2) \<and>
   content (merge_outer sample_A sample_E) (''g1'', ''A'') = Some (Some 1) \<and>
   content (merge_outer sample_A sample_E) (''g1'', ''E'') = Some None \<and>
   content (merge_outer sample_A sample_E) (''g2'', ''A'') = Some (Some 2) \<and>
   content (merge_outer sample_A sample_E) (''g2'', ''E'') = Some (Some 5) \<and>
   content (merge_outer sample_A sample_E) (''g3'', ''A'') = Some None \<and>
   content (merge_outer sample_A sample_E) (''g3'', ''E'') = Some (Some 6) \<and>
   keyed sample_D53 \<and> set (columns sample_A) \<inter> set (columns sample_D53) = {} \<and>
   content (merge_outer sample_A sample_D53) (''g1'', ''D'') = Some (Some 9007199254740992) \<and>
   content (merge_outer sample_A sample_D53) (''g2'', ''D'') = Some None \<and>
   content (merge_outer sample_A sample_D53) (''g1'', ''A'') = Some (Some 1)"
proof -
  have h: "keyed sample_A" "keyed sample_E" "set (columns sample_A) \<inter> set (columns sample_E) = {}"
    by (simp_all add: keyed_def index_def sample_A_def sample_E_def)
  have h': "keyed sample_D53" "set (columns sample_A) \<inter> set (columns sample_D53) = {}"
    by (simp_all add: keyed_def index_def sample_A_def sample_D53_def)
  have b: "\<forall>row \<in> set (rows sample_A) \<union> set (rows sample_E).
             \<forall>n. Some n \<in> set (snd row) \<longrightarrow> \<bar>n\<bar> \<le> 2 ^ 53"
    by (simp add: sample_A_def sample_E_def)
  have b': "list_all (\<lambda>row. list_all (\<lambda>v. case v of None \<Rightarrow> True | Some n \<Rightarrow> \<bar>n\<bar> \<le> 2 ^ 53) (snd row))
     (rows sample_A @ rows sample_E)"
    by (simp add: sample_A_def sample_E_def)
  have e: "set (index sample_A) = {''g1'', ''g2''}" "set (index sample_E) = {''g2'', ''g3''}"
    "columns sample_A = [''A'']" "columns sample_E = [''E'']"
    "content sample_A (''g1'', ''A'') = Some (Some 1)"
    "content sample_A (''g2'', ''A'') = Some (Some 2)"
    "content sample_E (''g2'', ''E'') = Some (Some 5)"
    "content sample_E (''g3'', ''E'') = Some (Some 6)"
    by (auto simp: index_def content_def sample_A_def sample_E_def)
  have e': "set (index sample_D53) = {''g1''}" "columns sample_D53 = [''D'']"
    "content sample_D53 (''g1'', ''D'') = Some (Some 9007199254740993)"
    by (auto simp: index_def content_def sample_D53_def)
  have f: "float64_of_int 9007199254740993 = 9007199254740992"
    by (simp add: float64_of_int_def float64_of_nat_def round_half_even_def Let_def)
  have u: "set (index sample_A) \<union> set (index sample_E) = {''g1'', ''g2'', ''g3''}"
    unfolding e by auto
  note t = merge_outer_contract [OF h]
  note t' = merge_outer_contract [OF h(1) h']
  let ?M = "merge_outer sample_A sample_E"
  let ?N = "merge_outer sample_A sample_D53"
  have i: "set (index ?M) = {''g1'', ''g2'', ''g3''}" using t u by simp
  have c: "set (columns ?M) = {''A'', ''E''}" using t e(3,4) by auto
  have "card {''g1'', ''g2'', ''g3''} = 3" by simp
  then have s: "shape ?M = (3, 2)" using t u e(3,4) by simp
  have "\<forall>k c. content ?M (k, c) =
            (if k \<in> set (index sample_A) \<union> set (index sample_E) then
               if c \<in> set (columns sample_A) then
                 (if k \<in> set (index sample_A) then content sample_A (k, c) else Some None)
               else if c \<in> set (columns sample_E) then
                 (if k \<in> set (index sample_E) then content sample_E (k, c) else Some None)
               else None
             else None)"
    using t b by blast
  then have v: "content ?M (k, c) =
            (if k \<in> {''g1'', ''g2'', ''g3''} then
               if c = ''A'' then
                 (if k \<in> {''g1'', ''g2''} then content sample_A (k, c) else Some None)
               else if c = ''E'' then
                 (if k \<in> {''g2'', ''g3''} then content sample_E (k, c) else Some None)
               else None
             else None)" for k c
    unfolding u e by simp
  have "\<forall>k c. content ?N (k, c) =
            (if k \<in> set (index sample_A) \<union> set (index sample_D53) then
               if c \<in> set (columns sample_A) then
                 (if k \<in> set (index sample_A) then
                    (if set (index sample_D53) \<subseteq> set (index sample_A) then content sample_A (k, c)
                     else map_option (map_option float64_of_int) (content sample_A (k, c)))
                  else Some None)
               else if c \<in> set (columns sample_D53) then
                 (if k \<in> set (index sample_D53) then
                    (if set (index sample_A) \<subseteq> set (index sample_D53) then content sample_D53 (k, c)
                     else map_option (map_option float64_of_int) (content sample_D53 (k, c)))
                  else Some None)
               else None
             else None)"
    using t' by blast
  then have w: "content ?N (k, c) =
            (if k \<in> {''g1'', ''g2''} then
               if c = ''A'' then content sample_A (k, c)
               else if c = ''D'' then
                 (if k = ''g1'' then
                    map_option (map_option float64_of_int) (content sample_D53 (k, c))
                  else Some None)
               else None
             else None)" for k c
    unfolding e e' by auto
  have n: "content ?N (''g1'', ''D'') = Some (Some 9007199254740992)"
    "content ?N (''g2'', ''D'') = Some None"
    "content ?N (''g1'', ''A'') = Some (Some 1)"
    by (simp_all add: w e e' f)
  show ?thesis
    using h h' b' i c s n by (simp add: v e)
qed

subsection \<open>The precomputed number of iterations\<close>

text \<open>
  Against C7 as stated: on three tables the recursive reducer precomputes 3, performs 2
  merges and returns a result: the precomputed number is not the number of merges, and no
  error is raised.
\<close>

theorem precomputed_count_counterexample:
  "fst (join_dataframes_recursively (initial [sample_A, sample_B, sample_C])) = Inr 4 \<and>
   pbar_total (snd (join_dataframes_recursively (initial [sample_A, sample_B, sample_C]))) = 3 \<and>
   merge_calls (snd (join_dataframes_recursively (initial [sample_A, sample_B, sample_C]))) = 2"
  by code_simp

text \<open>
  C7, as the code has it. For a nonempty list the number precomputed before merging
  (the total of the progress bar) is the number of progress updates, that is of
  iterations of the inner loop, a carried-forward table counting as one; the number of
  merges is the number of tables minus one; and the error \<open>Math was incorrect!\<close> is
  never raised.
\<close>

theorem precomputed_count_is_progress_count:
  assumes "dfs_list s \<noteq> []" "valid_refs (dfs_list s) s"
  shows "pbar_total (snd (join_dataframes_recursively s)) =
           num_iterations_loop (length (dfs_list s)) 0 \<and>
         pbar_n (snd (join_dataframes_recursively s)) =
           pbar_total (snd (join_dataframes_recursively s)) \<and>
         merge_calls (snd (join_dataframes_recursively s)) =
           merge_calls s + (length (dfs_list s) - 1) \<and>
         fst (join_dataframes_recursively s) \<noteq> Inl (raise_error Math_was_incorrect)"
proof -
  from recursive_summary [OF assms] obtain r s' where
    "join_dataframes_recursively s = (check_shape (frames s' ! r) (expected_shape s) r, s')"
    "merge_calls s' = merge_calls s + (length (dfs_list s) - 1)"
    "pbar_total s' = num_iterations_loop (length (dfs_list s)) 0"
    "pbar_n s' = num_iterations_loop (length (dfs_list s)) 0"
    by blast
  then show ?thesis by (simp add: check_shape_def raise_error_def)
qed

theorem precomputed_count_is_progress_count_witness:
  "dfs_list (initial [sample_A, sample_B, sample_C]) \<noteq> [] \<and>
   valid_refs (dfs_list (initial [sample_A, sample_B, sample_C])) (initial [sample_A, sample_B, sample_C]) \<and>
   pbar_total (snd (join_dataframes_recursively (initial [sample_A, sample_B, sample_C]))) = 3 \<and>
   pbar_n (snd (join_dataframes_recursively (initial [sample_A, sample_B, sample_C]))) = 3 \<and>
   merge_calls (snd (join_dataframes_recursively (initial [sample_A, sample_B, sample_C]))) = 2 \<and>
   fst (join_dataframes_recursively (initial [sample_A, sample_B, sample_C])) \<noteq>
     Inl (raise_error Math_was_incorrect)"
proof -
  have h1: "dfs_list (initial [sample_A, sample_B, sample_C]) \<noteq> []"
    by (simp add: initial_def)
  have h2: "valid_refs (dfs_list (initial [sample_A, sample_B, sample_C]))
              (initial [sample_A, sample_B, sample_C])"
    by (simp add: initial_def valid_refs_def)
  have n: "num_iterations_loop 3 0 = 3" by code_simp
  have l: "length (dfs_list (initial [sample_A, sample_B, sample_C])) = 3"
    "merge_calls (initial [sample_A, sample_B, sample_C]) = 0"
    by (simp_all add: initial_def)
  show ?thesis
    using h1 h2 precomputed_count_is_progress_count [OF h1 h2, unfolded l n] n
    by simp
qed

subsection \<open>The outer join: commutativity and associativity\<close>

text \<open>
  C8. On keyed tables with pairwise disjoint column labels the outer join is commutative
  and associative in content, and merging three tables in any order and bracketing gives
  the same content.
\<close>

theorem merge_outer_commutative_associative:
  assumes "keyed A" "keyed B" "keyed C"
    and "set (columns A) \<inter> set (columns B) = {}"
    and "set (columns A) \<inter> set (columns C) = {}"
    and "set (columns B) \<inter> set (columns C) = {}"
  shows "content (merge_outer A B) = content (merge_outer B A) \<and>
         content (merge_outer (merge_outer A B) C) = content (merge_outer A (merge_outer B C)) \<and>
         (\<forall>(X, Y, Z) \<in> set [(A, B, C), (A, C, B), (B, A, C), (B, C, A), (C, A, B), (C, B, A)].
            content (merge_outer (merge_outer X Y) Z) = content (merge_outer (merge_outer A B) C) \<and>
            content (merge_outer X (merge_outer Y Z)) = content (merge_outer (merge_outer A B) C))"
proof -
  define U where "U = set (index A) \<union> set (index B) \<union> set (index C)"
  have none: "c \<notin> set (columns T) \<Longrightarrow> lookup_in T V k c = None"
    if "T = A \<or> T = B \<or> T = C" for T V k c
    using that assms(1-3) by (auto simp: lookup_in_None_iff)
  have comm: "content (merge_outer A B) = content (merge_outer B A)"
  proof (rule ext)
    fix x :: "'a \<times> string"
    obtain k c where x: "x = (k, c)" by (cases x)
    define V where "V = set (index A) \<union> set (index B)"
    have ba: "set (columns B) \<inter> set (columns A) = {}" using assms(4) by auto
    have i: "set (index (merge_outer A B)) = V" "set (index (merge_outer B A)) = V"
      using assms(1,2) by (auto simp: set_index_merge_outer V_def)
    have s: "set (index A) \<union> set (index B) \<subseteq> V" "set (index B) \<union> set (index A) \<subseteq> V"
      by (auto simp: V_def)
    have "c \<notin> set (columns A) \<or> c \<notin> set (columns B)" using assms(4) by auto
    then have "lookup_in A V k c = None \<or> lookup_in B V k c = None"
      using none [of A c V k] none [of B c V k] by auto
    then show "content (merge_outer A B) x = content (merge_outer B A) x"
      by (auto simp: x content_lookup_in i
            lookup_in_merge_outer [OF assms(1,2,4) s(1)] lookup_in_merge_outer [OF assms(2,1) ba s(2)]
            split: option.splits)
  qed
  have perm: "content (merge_outer (merge_outer X Y) Z) = content (merge_outer (merge_outer A B) C) \<and>
              content (merge_outer X (merge_outer Y Z)) = content (merge_outer (merge_outer A B) C)"
    if p: "(X, Y, Z) \<in> set [(A, B, C), (A, C, B), (B, A, C), (B, C, A), (C, A, B), (C, B, A)]"
    for X Y Z
  proof -
    have k: "keyed X" "keyed Y" "keyed Z" using p assms(1-3) by auto
    have d: "set (columns X) \<inter> set (columns Y) = {}" "set (columns X) \<inter> set (columns Z) = {}"
      "set (columns Y) \<inter> set (columns Z) = {}"
      using p assms(4-6) by auto
    have u: "U = set (index X) \<union> set (index Y) \<union> set (index Z)"
      using p by (auto simp: U_def)
    have v: "(if c \<in> set (columns X) then lookup_in X U k c
              else if c \<in> set (columns Y) then lookup_in Y U k c else lookup_in Z U k c) =
             (if c \<in> set (columns A) then lookup_in A U k c
              else if c \<in> set (columns B) then lookup_in B U k c else lookup_in C U k c)" for k c
      using p assms(4-6) none [of A c U k] none [of B c U k] none [of C c U k] by auto
    have "content (merge_outer (merge_outer X Y) Z) x = content (merge_outer (merge_outer A B) C) x"
      "content (merge_outer X (merge_outer Y Z)) x = content (merge_outer (merge_outer A B) C) x"
      for x
    proof -
      obtain k c where x: "x = (k, c)" by (cases x)
      show "content (merge_outer (merge_outer X Y) Z) x = content (merge_outer (merge_outer A B) C) x"
        unfolding x content_merge_outer3(1) [OF k d u] content_merge_outer3(1) [OF assms U_def] v ..
      show "content (merge_outer X (merge_outer Y Z)) x = content (merge_outer (merge_outer A B) C) x"
        unfolding x content_merge_outer3(2) [OF k d u] content_merge_outer3(1) [OF assms U_def] v ..
    qed
    then show ?thesis by (intro conjI ext)
  qed
  have "content (merge_outer (merge_outer A B) C) = content (merge_outer A (merge_outer B C))"
    using perm [of A B C] by simp
  with comm perm show ?thesis by blast
qed

theorem merge_outer_commutative_associative_witness:
  "keyed sample_A \<and> keyed sample_B \<and> keyed sample_C \<and>
   set (columns sample_A) \<inter> set (columns sample_B) = {} \<and>
   set (columns sample_A) \<inter> set (columns sample_C) = {} \<and>
   set (columns sample_B) \<inter> set (columns sample_C) = {} \<and>
   content (merge_outer sample_A sample_B) = content (merge_outer sample_B sample_A) \<and>
   content (merge_outer (merge_outer sample_A sample_B) sample_C) =
     content (merge_outer sample_A (merge_outer sample_B sample_C)) \<and>
   content (merge_outer (merge_outer sample_C sample_A) sample_B) =
     content (merge_outer (merge_outer sample_A sample_B) sample_C) \<and>
   content (merge_outer sample_B (merge_outer sample_C sample_A)) =
     content (merge_outer (merge_outer sample_A sample_B) sample_C)"
proof -
  have h: "keyed sample_A" "keyed sample_B" "keyed sample_C"
    "set (columns sample_A) \<inter> set (columns sample_B) = {}"
    "set (columns sample_A) \<inter> set (columns sample_C) = {}"
    "set (columns sample_B) \<inter> set (columns sample_C) = {}"
    by (simp_all add: keyed_def index_def sample_A_def sample_B_def sample_C_def)
  note t = merge_outer_commutative_associative [OF h]
  have comm: "content (merge_outer sample_A sample_B) = content (merge_outer sample_B sample_A)"
    and assoc: "content (merge_outer (merge_outer sample_A sample_B) sample_C) =
                  content (merge_outer sample_A (merge_outer sample_B sample_C))"
    and perm: "\<forall>(X, Y, Z) \<in> set [(sample_A, sample_B, sample_C), (sample_A, sample_C, sample_B),
                   (sample_B, sample_A, sample_C), (sample_B, sample_C, sample_A),
                   (sample_C, sample_A, sample_B), (sample_C, sample_B, sample_A)].
            content (merge_outer (merge_outer X Y) Z) =
              content (merge_outer (merge_outer sample_A sample_B) sample_C) \<and>
            content (merge_outer X (merge_outer Y Z)) =
              content (merge_outer (merge_outer sample_A sample_B) sample_C)"
    using t by blast+
  have p1: "content (merge_outer (merge_outer sample_C sample_A) sample_B) =
              content (merge_outer (merge_outer sample_A sample_B) sample_C)"
    using bspec [OF perm, of "(sample_C, sample_A, sample_B)"] by simp
  have p2: "content (merge_outer sample_B (merge_outer sample_C sample_A)) =
              content (merge_outer (merge_outer sample_A sample_B) sample_C)"
    using bspec [OF perm, of "(sample_B, sample_C, sample_A)"] by simp
  show ?thesis
    using h comm assoc p1 p2 by (intro conjI)
qed

subsection \<open>No table is dropped\<close>

text \<open>
  Against C9 as stated. The file \<open>D\<close> has the count \<open>2 ^ 53 + 1\<close> for \<open>g1\<close> and lacks
  the gene \<open>g2\<close> of the file \<open>A\<close>. The recursive reducer returns a table with the two
  columns, and the column of \<open>D\<close> holds \<open>2 ^ 53\<close> for \<open>g1\<close>: the merge has converted the
  column to \<open>float64\<close>, and the value of the input is lost.
\<close>

theorem recursive_keeps_every_table_counterexample:
  "list_all (\<lambda>t. keyed t \<and> length (columns t) = 1) [sample_A, sample_D53] \<and>
   fst (join_dataframes_recursively (initial [sample_A, sample_D53])) = Inr 2 \<and>
   cells sample_D53 ''g1'' = [Some 9007199254740993] \<and>
   cells (frames (snd (join_dataframes_recursively (initial [sample_A, sample_D53]))) ! 2) ''g1'' =
     [Some 1, Some 9007199254740992]"
proof -
  have "list_all (\<lambda>t. keyed t \<and> length (columns t) = 1) [sample_A, sample_D53]"
    by (simp add: keyed_def index_def sample_A_def sample_D53_def)
  moreover have "fst (join_dataframes_recursively (initial [sample_A, sample_D53])) = Inr 2"
    unfolding recursive_two_frames merge_outer_sample_A_D53
    by (simp add: check_shape_def shape_def sort_columns_def sample_A_def)
  moreover have "cells sample_D53 ''g1'' = [Some 9007199254740993]"
    by (simp add: cells_def sample_D53_def)
  moreover have
    "cells (frames (snd (join_dataframes_recursively (initial [sample_A, sample_D53]))) ! 2) ''g1'' =
       [Some 1, Some 9007199254740992]"
    unfolding recursive_two_frames merge_outer_sample_A_D53
    by (simp add: cells_def sort_columns_def)
  ultimately show ?thesis by (intro conjI)
qed

text \<open>
  C9, as the code has it. For a nonempty list of keyed tables with one column each, the
  table that the rounds of the recursive reducer converge to (the result, unless the
  shape check refuses it) has as many columns as there are input tables, its keys are
  the keys of all of them, and the row of a key holds, column by column in input order,
  the cell that each input table has for the key (missing when the table lacks the
  key), converted to \<open>float64\<close> when the table lacks a key of the result: the column of
  every input table is there once, the carried-forward ones too. When no count exceeds
  \<open>2 ^ 53\<close> in magnitude, the cells are those of the input tables, unchanged.
\<close>

theorem recursive_keeps_every_table:
  assumes "dfs_list s \<noteq> []" "valid_refs (dfs_list s) s"
    and "ts = deref s (dfs_list s)"
    and "\<forall>t \<in> set ts. keyed t \<and> length (columns t) = 1"
    and "expected = (fst (shape (hd ts)), length ts)"
  shows "\<exists>r. r < length (frames (snd (join_dataframes_recursively s))) \<and>
             fst (join_dataframes_recursively s) =
               (if shape (frames (snd (join_dataframes_recursively s)) ! r) \<noteq> expected
                then Inl (raise_error
                       (Output_matrix_shape
                          (shape (frames (snd (join_dataframes_recursively s)) ! r)) expected))
                else Inr r) \<and>
             keyed (frames (snd (join_dataframes_recursively s)) ! r) \<and>
             length (columns (frames (snd (join_dataframes_recursively s)) ! r)) = length ts \<and>
             set (index (frames (snd (join_dataframes_recursively s)) ! r)) =
               (\<Union>t \<in> set ts. set (index t)) \<and>
             (\<forall>k. cells (frames (snd (join_dataframes_recursively s)) ! r) k =
                    map (\<lambda>t. hd (if (\<Union>u \<in> set ts. set (index u)) \<subseteq> set (index t) then cells t k
                                  else to_float64 (cells t k))) ts) \<and>
             ((\<forall>t \<in> set ts. \<forall>row \<in> set (rows t). \<forall>n. Some n \<in> set (snd row) \<longrightarrow> \<bar>n\<bar> \<le> 2 ^ 53) \<longrightarrow>
              (\<forall>k. cells (frames (snd (join_dataframes_recursively s)) ! r) k =
                     map (\<lambda>t. hd (cells t k)) ts))"
proof -
  define U where "U = (\<Union>t \<in> set ts. set (index t))"
  have k: "\<forall>t \<in> set (deref s (dfs_list s)). keyed t" using assms(3,4) by simp
  have ex: "expected_shape s = expected" using assms by (simp add: expected_shape_deref)
  from recursive_keyed [OF assms(1,2) k] obtain r s' m where
    a: "join_dataframes_recursively s = (check_shape (frames s' ! r) expected r, s')"
       "r < length (frames s')" "frames s' ! r = sort_columns m" "merged_of m ts"
    unfolding ex assms(3) [symmetric] by - (elim exE conjE, rule that, assumption+)
  have km: "keyed m" and im: "set (index m) = U"
    using merged_ofD(3,4) [OF a(4)] by (simp_all add: U_def)
  have one: "concat (map (\<lambda>t. cells_in t U k) us) = map (\<lambda>t. hd (cells_in t U k)) us"
    if "\<forall>t \<in> set us. length (cells_in t U k) = 1" for us :: "('a, int) dataframe list" and k
    using that
  proof (induction us)
    case Nil
    then show ?case by simp
  next
    case (Cons u us)
    then obtain x where "cells_in u U k = [x]" by (cases "cells_in u U k") auto
    with Cons show ?case by simp
  qed
  have l1: "\<forall>t \<in> set ts. length (cells_in t U k) = 1" for k
    using assms(4) by (simp add: length_cells_in)
  have c: "cells m k = map (\<lambda>t. hd (cells_in t U k)) ts" for k
    using cells_merged_of [OF a(4), of k] one [OF l1] unfolding im by simp
  have c1: "cells m k = map (\<lambda>t. hd (if U \<subseteq> set (index t) then cells t k
                                      else to_float64 (cells t k))) ts" for k
    unfolding c by (rule map_cong) (simp_all add: cells_in_def if_distrib)
  have c2: "cells m k = map (\<lambda>t. hd (cells t k)) ts"
    if b: "\<forall>t \<in> set ts. \<forall>row \<in> set (rows t). \<forall>n. Some n \<in> set (snd row) \<longrightarrow> \<bar>n\<bar> \<le> 2 ^ 53"
    for k
  proof -
    have "float_exact t" if "t \<in> set ts" for t
      using b that by (intro float_exact_bounded) blast
    then show ?thesis unfolding c by (intro map_cong refl) (simp add: float_exact_cells_in)
  qed
  have "sum_list (map (\<lambda>t. length (columns t)) ts) = length ts"
    using assms(4) by (induction ts) auto
  then have l: "length (columns m) = length ts"
    using shape_merged_of [OF a(4)] by (simp add: shape_def)
  show ?thesis
    using a(1,2,3) km im c1 c2 l unfolding U_def
    by (intro exI [of _ r]) (simp add: check_shape_def)
qed

theorem recursive_keeps_every_table_witness:
  "dfs_list (initial [sample_B, sample_A, sample_C]) \<noteq> [] \<and>
   valid_refs (dfs_list (initial [sample_B, sample_A, sample_C]))
     (initial [sample_B, sample_A, sample_C]) \<and>
   list_all (\<lambda>t. keyed t \<and> length (columns t) = 1) [sample_B, sample_A, sample_C] \<and>
   list_all (\<lambda>t. list_all (\<lambda>row. list_all (\<lambda>v. case v of None \<Rightarrow> True | Some n \<Rightarrow> \<bar>n\<bar> \<le> 2 ^ 53)
                                     (snd row)) (rows t))
     [sample_B, sample_A, sample_C] \<and>
   fst (join_dataframes_recursively (initial [sample_B, sample_A, sample_C])) = Inr 4 \<and>
   length (columns (frames (snd (join_dataframes_recursively
      (initial [sample_B, sample_A, sample_C]))) ! 4)) = 3 \<and>
   cells (frames (snd (join_dataframes_recursively (initial [sample_B, sample_A, sample_C]))) ! 4)
     ''g1'' = [Some 10, Some 1, Some 100] \<and>
   cells (frames (snd (join_dataframes_recursively (initial [sample_B, sample_A, sample_C]))) ! 4)
     ''g2'' = [Some 20, Some 2, Some 200] \<and>
   dfs_list (initial [sample_A, sample_D53]) \<noteq> [] \<and>
   valid_refs (dfs_list (initial [sample_A, sample_D53])) (initial [sample_A, sample_D53]) \<and>
   list_all (\<lambda>t. keyed t \<and> length (columns t) = 1) [sample_A, sample_D53] \<and>
   fst (join_dataframes_recursively (initial [sample_A, sample_D53])) = Inr 2 \<and>
   cells (frames (snd (join_dataframes_recursively (initial [sample_A, sample_D53]))) ! 2)
     ''g1'' = [Some 1, Some 9007199254740992] \<and>
   cells (frames (snd (join_dataframes_recursively (initial [sample_A, sample_D53]))) ! 2)
     ''g2'' = [Some 2, None]"
proof -
  let ?s = "initial [sample_B, sample_A, sample_C]"
  have h1: "dfs_list ?s \<noteq> []" by (simp add: initial_def)
  have h2: "valid_refs (dfs_list ?s) ?s" by (simp add: initial_def valid_refs_def)
  have h3: "[sample_B, sample_A, sample_C] = deref ?s (dfs_list ?s)"
    by (simp add: initial_def deref_def)
  have h4: "\<forall>t \<in> set [sample_B, sample_A, sample_C]. keyed t \<and> length (columns t) = 1"
    by (simp add: keyed_def index_def sample_A_def sample_B_def sample_C_def)
  have h5: "(2, 3) = (fst (shape (hd [sample_B, sample_A, sample_C])),
                      length [sample_B, sample_A, sample_C])"
    by (simp add: shape_def sample_B_def)
  have h6: "\<forall>t \<in> set [sample_B, sample_A, sample_C].
              \<forall>row \<in> set (rows t). \<forall>n. Some n \<in> set (snd row) \<longrightarrow> \<bar>n\<bar> \<le> 2 ^ 53"
    by (simp add: sample_A_def sample_B_def sample_C_def)
  have h6': "list_all (\<lambda>t. list_all (\<lambda>row. list_all (\<lambda>v. case v of None \<Rightarrow> True | Some n \<Rightarrow> \<bar>n\<bar> \<le> 2 ^ 53)
                                     (snd row)) (rows t))
     [sample_B, sample_A, sample_C]"
    by (simp add: sample_A_def sample_B_def sample_C_def)
  have e: "fst (join_dataframes_recursively ?s) = Inr 4" by code_simp
  from recursive_keeps_every_table [OF h1 h2 h3 h4 h5] h6 obtain r where
    r: "fst (join_dataframes_recursively ?s) =
               (if shape (frames (snd (join_dataframes_recursively ?s)) ! r) \<noteq> (2, 3)
                then Inl (raise_error
                       (Output_matrix_shape
                          (shape (frames (snd (join_dataframes_recursively ?s)) ! r)) (2, 3)))
                else Inr r)"
       "length (columns (frames (snd (join_dataframes_recursively ?s)) ! r)) =
          length [sample_B, sample_A, sample_C]"
       "\<forall>k. cells (frames (snd (join_dataframes_recursively ?s)) ! r) k =
                    map (\<lambda>t. hd (cells t k)) [sample_B, sample_A, sample_C]"
    by blast
  have r4: "r = 4" using r(1) e by (simp split: if_splits)
  have c: "map (\<lambda>t. hd (cells t ''g1'')) [sample_B, sample_A, sample_C] = [Some 10, Some 1, Some 100]"
    "map (\<lambda>t. hd (cells t ''g2'')) [sample_B, sample_A, sample_C] = [Some 20, Some 2, Some 200]"
    by (simp_all add: cells_def sample_A_def sample_B_def sample_C_def)
  have h4': "list_all (\<lambda>t. keyed t \<and> length (columns t) = 1) [sample_B, sample_A, sample_C]"
    using h4 by (simp add: list_all_iff)
  have first: "fst (join_dataframes_recursively ?s) = Inr 4 \<and>
     length (columns (frames (snd (join_dataframes_recursively ?s)) ! 4)) = 3 \<and>
     cells (frames (snd (join_dataframes_recursively ?s)) ! 4) ''g1'' = [Some 10, Some 1, Some 100] \<and>
     cells (frames (snd (join_dataframes_recursively ?s)) ! 4) ''g2'' = [Some 20, Some 2, Some 200]"
    using e r(2,3) c unfolding r4 by simp
  let ?u = "initial [sample_A, sample_D53]"
  have g1: "dfs_list ?u \<noteq> []" by (simp add: initial_def)
  have g2: "valid_refs (dfs_list ?u) ?u" by (simp add: initial_def valid_refs_def)
  have g3: "[sample_A, sample_D53] = deref ?u (dfs_list ?u)"
    by (simp add: initial_def deref_def)
  have g4: "\<forall>t \<in> set [sample_A, sample_D53]. keyed t \<and> length (columns t) = 1"
    by (simp add: keyed_def index_def sample_A_def sample_D53_def)
  have g5: "(2, 2) = (fst (shape (hd [sample_A, sample_D53])), length [sample_A, sample_D53])"
    by (simp add: shape_def sample_A_def)
  have e2: "fst (join_dataframes_recursively ?u) = Inr 2"
    unfolding recursive_two_frames merge_outer_sample_A_D53
    by (simp add: check_shape_def shape_def sort_columns_def sample_A_def)
  from recursive_keeps_every_table [OF g1 g2 g3 g4 g5] obtain q where
    q: "fst (join_dataframes_recursively ?u) =
               (if shape (frames (snd (join_dataframes_recursively ?u)) ! q) \<noteq> (2, 2)
                then Inl (raise_error
                       (Output_matrix_shape
                          (shape (frames (snd (join_dataframes_recursively ?u)) ! q)) (2, 2)))
                else Inr q)"
       "\<forall>k. cells (frames (snd (join_dataframes_recursively ?u)) ! q) k =
              map (\<lambda>t. hd (if (\<Union>u \<in> set [sample_A, sample_D53]. set (index u)) \<subseteq> set (index t)
                            then cells t k else to_float64 (cells t k))) [sample_A, sample_D53]"
    by - (elim exE conjE, rule that, assumption+)
  have q2: "q = 2" using q(1) e2 by (simp split: if_splits)
  have f: "float64_of_int 9007199254740993 = 9007199254740992"
    by (simp add: float64_of_int_def float64_of_nat_def round_half_even_def Let_def)
  have d: "map (\<lambda>t. hd (if (\<Union>u \<in> set [sample_A, sample_D53]. set (index u)) \<subseteq> set (index t)
                            then cells t ''g1'' else to_float64 (cells t ''g1''))) [sample_A, sample_D53] =
             [Some 1, Some 9007199254740992]"
    "map (\<lambda>t. hd (if (\<Union>u \<in> set [sample_A, sample_D53]. set (index u)) \<subseteq> set (index t)
                            then cells t ''g2'' else to_float64 (cells t ''g2''))) [sample_A, sample_D53] =
             [Some 2, None]"
    by (simp_all add: cells_def index_def to_float64_def f sample_A_def sample_D53_def)
  have second: "fst (join_dataframes_recursively ?u) = Inr 2 \<and>
     cells (frames (snd (join_dataframes_recursively ?u)) ! 2) ''g1'' = [Some 1, Some 9007199254740992] \<and>
     cells (frames (snd (join_dataframes_recursively ?u)) ! 2) ''g2'' = [Some 2, None]"
    using e2 q(2) d unfolding q2 by simp
  have g4': "list_all (\<lambda>t. keyed t \<and> length (columns t) = 1) [sample_A, sample_D53]"
    using g4 by (simp add: list_all_iff)
  show ?thesis
    using h1 h2 h4' h6' first g1 g2 g4' second by (intro conjI) blast+
qed

subsection \<open>Empty input\<close>

text \<open>
  C10. Given an empty list of tables, the sequential reducer and the recursive reducer
  both raise the \<open>ValueError\<close> at once: the state is returned as it was, so no frame
  was merged or allocated, no list was changed and no progress was reported.
\<close>

theorem empty_input_ValueError:
  assumes "dfs_list s = []"
  shows "join_dataframes_sequentially s =
           (Inl (ValueError ''Must contain at least one count file to merge.''), s) \<and>
         join_dataframes_recursively s =
           (Inl (ValueError ''Must contain at least one count file to merge.''), s)"
  using assms by (simp add: join_dataframes_sequentially_def join_dataframes_recursively_def)

theorem empty_input_ValueError_witness:
  "dfs_list (initial ([] :: (string, int) dataframe list)) = [] \<and>
   join_dataframes_sequentially (initial ([] :: (string, int) dataframe list)) =
     (Inl (ValueError ''Must contain at least one count file to merge.''), initial []) \<and>
   join_dataframes_recursively (initial ([] :: (string, int) dataframe list)) =
     (Inl (ValueError ''Must contain at least one count file to merge.''), initial [])"
proof -
  have h: "dfs_list (initial ([] :: (string, int) dataframe list)) = []"
    by (simp add: initial_def)
  show ?thesis using h empty_input_ValueError [OF h] by simp
qed

end
